theory Spec2Isabelle
  imports Main
begin

section \<open>Python values and dictionaries\<close>

text \<open>
  The values the transformer of \<^verbatim>\<open>src/main.py\<close> produces: a Python \<^verbatim>\<open>int\<close> (unbounded),
  a \<^verbatim>\<open>dict\<close> with string keys, or \<^verbatim>\<open>None\<close> (returned by \<^verbatim>\<open>use_const\<close> for an undefined
  constant). A Python dict keeps insertion order, so it is an association list whose keys
  are kept unique by \<open>py_setitem\<close>.
\<close>

datatype pyval = PyInt int | PyDict "(string \<times> pyval) list" | PyNone

type_synonym pydict = "(string \<times> pyval) list"

text \<open>\<^verbatim>\<open>k in d\<close>\<close>

fun py_contains :: "string \<Rightarrow> (string \<times> 'v) list \<Rightarrow> bool" where
  "py_contains k [] = False"
| "py_contains k ((k', v) # d) = (k = k' \<or> py_contains k d)"

text \<open>\<^verbatim>\<open>d[k] = v\<close>: an existing key keeps its position and gets the new value, a new key
  goes to the end.\<close>

fun py_setitem :: "string \<Rightarrow> 'v \<Rightarrow> (string \<times> 'v) list \<Rightarrow> (string \<times> 'v) list" where
  "py_setitem k v [] = [(k, v)]"
| "py_setitem k v ((k', v') # d) =
     (if k = k' then (k, v) # d else (k', v') # py_setitem k v d)"

text \<open>\<^verbatim>\<open>d[k]\<close>, with \<open>None\<close> for the \<^verbatim>\<open>KeyError\<close>.\<close>

fun py_getitem :: "string \<Rightarrow> (string \<times> 'v) list \<Rightarrow> 'v option" where
  "py_getitem k [] = None"
| "py_getitem k ((k', v) # d) = (if k = k' then Some v else py_getitem k d)"

text \<open>The apostrophe and the line feed, which the messages and the TOML text contain.\<close>

definition apostrophe :: char where
  "apostrophe = CHR 0x27"

definition newline :: char where
  "newline = CHR 0x0A"

text \<open>The exceptions of the interpreter that the program can meet.\<close>

datatype py_error = ValueError

subsection \<open>\<^verbatim>\<open>str(int)\<close> and \<^verbatim>\<open>int(text, 2)\<close>\<close>

definition digit_char :: "nat \<Rightarrow> char" where
  "digit_char d = ''0123456789'' ! d"

fun str_nat :: "nat \<Rightarrow> string" where
  "str_nat n = (if n < 10 then [digit_char n] else str_nat (n div 10) @ [digit_char (n mod 10)])"

declare str_nat.simps [simp del]

definition str_int :: "int \<Rightarrow> string" where
  "str_int i = (if i < 0 then CHR ''-'' # str_nat (nat (- i)) else str_nat (nat i))"

text \<open>
  The interpreter refuses to turn an integer of more than 4300 decimal digits into text
  (the default of \<^verbatim>\<open>sys.get_int_max_str_digits()\<close>; the sign is not counted): \<^verbatim>\<open>str\<close>, and
  with it the formatting of an integer in an f-string, raises \<^verbatim>\<open>ValueError\<close>.
  \<^verbatim>\<open>int(text, 2)\<close> has no such limit.
\<close>

definition max_str_digits :: nat where
  "max_str_digits = 4300"

definition py_str :: "int \<Rightarrow> py_error + string" where
  "py_str i =
     (if max_str_digits < length (str_nat (nat \<bar>i\<bar>)) then Inl ValueError else Inr (str_int i))"

text \<open>
  \<^verbatim>\<open>int(text, 2)\<close> on the texts a \<^verbatim>\<open>BIN_NUMBER\<close> token can hold: an optional prefix
  \<^verbatim>\<open>0b\<close> or \<^verbatim>\<open>0B\<close>, then one or more binary digits, read most significant digit first into
  an unbounded integer. Any other text is the \<^verbatim>\<open>ValueError\<close> (\<open>None\<close>); the sign, blanks and
  underscores that Python also accepts cannot occur in a token, and are not modelled.
\<close>

fun base2_digits :: "int \<Rightarrow> string \<Rightarrow> int option" where
  "base2_digits acc [] = Some acc"
| "base2_digits acc (c # cs) =
     (if c = CHR ''0'' then base2_digits (2 * acc) cs
      else if c = CHR ''1'' then base2_digits (2 * acc + 1) cs
      else None)"

definition py_int_base2 :: "string \<Rightarrow> int option" where
  "py_int_base2 text =
     (let digits = (if take 2 text = ''0b'' \<or> take 2 text = ''0B'' then drop 2 text else text)
      in if digits = [] then None else base2_digits 0 digits)"

section \<open>The parse tree\<close>

text \<open>
  The trees the grammar builds. \<^verbatim>\<open>?value\<close> and \<^verbatim>\<open>?statement\<close> are inlined rules, anonymous
  tokens are filtered out, so a value is a \<^verbatim>\<open>number\<close> node holding its \<^verbatim>\<open>BIN_NUMBER\<close> token,
  a \<^verbatim>\<open>make_dict\<close> node holding \<^verbatim>\<open>dict_item\<close> nodes (key and value), or a \<^verbatim>\<open>use_const\<close> node
  holding a name; a statement is a \<^verbatim>\<open>declare_const\<close> or a \<^verbatim>\<open>dict_item\<close> node; the
  \<^verbatim>\<open>start\<close> node holds the statements in source order.
\<close>

datatype tree = Number string | Make_dict "(string \<times> tree) list" | Use_const string

datatype statement = Declare_const string tree | Dict_item string tree

section \<open>\<^verbatim>\<open>ConfigTransformer\<close>\<close>

record transformer =
  constants :: "(string \<times> pyval) list"
  errors :: "string list"

text \<open>\<^verbatim>\<open>__init__\<close>\<close>

definition ConfigTransformer :: transformer where
  "ConfigTransformer = \<lparr>constants = [], errors = []\<rparr>"

definition number :: "string \<Rightarrow> py_error + pyval" where
  "number token = (case py_int_base2 token of None \<Rightarrow> Inl ValueError | Some n \<Rightarrow> Inr (PyInt n))"

definition redefined_msg :: "string \<Rightarrow> string" where
  "redefined_msg name = ''Constant '' @ [apostrophe] @ name @ [apostrophe] @ '' redefined''"

definition undefined_msg :: "string \<Rightarrow> string" where
  "undefined_msg name = ''Undefined constant '' @ [apostrophe] @ name @ [apostrophe]"

definition duplicate_msg :: "string \<Rightarrow> string" where
  "duplicate_msg k = ''Duplicate key '' @ [apostrophe] @ k @ [apostrophe] @ '' in table''"

definition declare_const :: "string \<Rightarrow> pyval \<Rightarrow> transformer \<Rightarrow> transformer" where
  "declare_const name val t =
     (let t1 = (if py_contains name (constants t)
                then t\<lparr>errors := errors t @ [redefined_msg name]\<rparr> else t)
      in t1\<lparr>constants := py_setitem name val (constants t1)\<rparr>)"

definition use_const :: "string \<Rightarrow> transformer \<Rightarrow> pyval \<times> transformer" where
  "use_const name t =
     (case py_getitem name (constants t) of
        None \<Rightarrow> (PyNone, t\<lparr>errors := errors t @ [undefined_msg name]\<rparr>)
      | Some v \<Rightarrow> (v, t))"

definition dict_item :: "string \<Rightarrow> pyval \<Rightarrow> string \<times> pyval" where
  "dict_item key val = (key, val)"

text \<open>The loop of \<^verbatim>\<open>make_dict\<close>, with the dict \<^verbatim>\<open>result\<close> and the list \<^verbatim>\<open>self.errors\<close>.\<close>

fun make_dict_loop :: "(string \<times> pyval) list \<Rightarrow> pydict \<Rightarrow> string list \<Rightarrow> pydict \<times> string list" where
  "make_dict_loop [] result errs = (result, errs)"
| "make_dict_loop ((k, v) # items) result errs =
     make_dict_loop items (py_setitem k v result)
       (if py_contains k result then errs @ [duplicate_msg k] else errs)"

definition make_dict :: "(string \<times> pyval) list \<Rightarrow> transformer \<Rightarrow> pyval \<times> transformer" where
  "make_dict items t =
     (case make_dict_loop items [] (errors t) of
        (result, errs) \<Rightarrow> (PyDict result, t\<lparr>errors := errs\<rparr>))"

text \<open>
  The loop of \<^verbatim>\<open>start\<close>. An item is what the statement's callback returned: \<^verbatim>\<open>None\<close> from
  \<^verbatim>\<open>declare_const\<close>, a tuple from \<^verbatim>\<open>dict_item\<close>; only tuples are stored, and no key is
  looked up before it is stored.
\<close>

fun start_loop :: "(string \<times> pyval) option list \<Rightarrow> pydict \<Rightarrow> pydict" where
  "start_loop [] result = result"
| "start_loop (None # items) result = start_loop items result"
| "start_loop (Some (k, v) # items) result = start_loop items (py_setitem k v result)"

definition start :: "(string \<times> pyval) option list \<Rightarrow> pydict" where
  "start items = start_loop items []"

subsection \<open>The traversal\<close>

text \<open>
  \<^verbatim>\<open>Transformer.transform\<close> works bottom-up: the children of a node are transformed from
  left to right, then the node's callback is called on the results. An exception raised
  in a callback ends the traversal.
\<close>

function transform_value :: "tree \<Rightarrow> transformer \<Rightarrow> py_error + (pyval \<times> transformer)"
  and transform_items :: "(string \<times> tree) list \<Rightarrow> transformer
        \<Rightarrow> py_error + ((string \<times> pyval) list \<times> transformer)" where
  "transform_value (Number token) t =
     (case number token of Inl e \<Rightarrow> Inl e | Inr v \<Rightarrow> Inr (v, t))"
| "transform_value (Use_const name) t = Inr (use_const name t)"
| "transform_value (Make_dict entries) t =
     (case transform_items entries t of
        Inl e \<Rightarrow> Inl e
      | Inr (items, t') \<Rightarrow> Inr (make_dict items t'))"
| "transform_items [] t = Inr ([], t)"
| "transform_items ((key, child) # entries) t =
     (case transform_value child t of
        Inl e \<Rightarrow> Inl e
      | Inr (v, t1) \<Rightarrow>
          (case transform_items entries t1 of
             Inl e \<Rightarrow> Inl e
           | Inr (items, t2) \<Rightarrow> Inr (dict_item key v # items, t2)))"
  by pat_completeness auto
termination
  by (relation "measure (\<lambda>x. case x of
        Inl (e, t) \<Rightarrow> size e
      | Inr (es, t) \<Rightarrow> size_list (size_prod (\<lambda>_. 0) size) es)") auto

fun transform_statement :: "statement \<Rightarrow> transformer
      \<Rightarrow> py_error + ((string \<times> pyval) option \<times> transformer)" where
  "transform_statement (Declare_const name child) t =
     (case transform_value child t of
        Inl e \<Rightarrow> Inl e
      | Inr (v, t1) \<Rightarrow> Inr (None, declare_const name v t1))"
| "transform_statement (Dict_item key child) t =
     (case transform_value child t of
        Inl e \<Rightarrow> Inl e
      | Inr (v, t1) \<Rightarrow> Inr (Some (dict_item key v), t1))"

fun transform_statements :: "statement list \<Rightarrow> transformer
      \<Rightarrow> py_error + ((string \<times> pyval) option list \<times> transformer)" where
  "transform_statements [] t = Inr ([], t)"
| "transform_statements (s # ss) t =
     (case transform_statement s t of
        Inl e \<Rightarrow> Inl e
      | Inr (item, t1) \<Rightarrow>
          (case transform_statements ss t1 of
             Inl e \<Rightarrow> Inl e
           | Inr (items, t2) \<Rightarrow> Inr (item # items, t2)))"

text \<open>\<^verbatim>\<open>transformer.transform(tree)\<close> on the \<^verbatim>\<open>start\<close> node.\<close>

definition transform :: "statement list \<Rightarrow> transformer \<Rightarrow> py_error + (pydict \<times> transformer)" where
  "transform program t =
     (case transform_statements program t of
        Inl e \<Rightarrow> Inl e
      | Inr (items, t') \<Rightarrow> Inr (start items, t'))"

section \<open>\<^verbatim>\<open>to_toml\<close>\<close>

text \<open>\<^verbatim>\<open>"\n".join(lines)\<close>\<close>

fun join_lines :: "string list \<Rightarrow> string" where
  "join_lines [] = []"
| "join_lines [l] = l"
| "join_lines (l # m # ls) = l @ [newline] @ join_lines (m # ls)"

text \<open>\<^verbatim>\<open>"  " * indent\<close>\<close>

definition pad :: "nat \<Rightarrow> string" where
  "pad indent = concat (replicate indent ''  '')"

text \<open>
  The loop of \<^verbatim>\<open>to_toml\<close> over \<^verbatim>\<open>data.items()\<close>, with the list \<^verbatim>\<open>lines\<close> it appends to.
  A dict value appends two elements, the header and the text of the recursive call; any
  other value is formatted by the f-string, which gives \<^verbatim>\<open>None\<close> for \<^verbatim>\<open>None\<close> and raises
  for an integer that is too long. An exception ends the loop and the calls around it.
  The source function reads its two arguments and its local list and nothing else, so the
  model is a function of the table and the indent alone.
\<close>

function to_toml_loop :: "pydict \<Rightarrow> nat \<Rightarrow> string list \<Rightarrow> py_error + string list" where
  "to_toml_loop [] indent lines = Inr lines"
| "to_toml_loop ((key, PyDict d) # rest) indent lines =
     (case to_toml_loop d (indent + 1) [] of
        Inl e \<Rightarrow> Inl e
      | Inr nested \<Rightarrow>
          to_toml_loop rest indent
            ((lines @ [pad indent @ ''['' @ key @ '']'']) @ [join_lines nested]))"
| "to_toml_loop ((key, PyInt i) # rest) indent lines =
     (case py_str i of
        Inl e \<Rightarrow> Inl e
      | Inr digits \<Rightarrow> to_toml_loop rest indent (lines @ [pad indent @ key @ '' = '' @ digits]))"
| "to_toml_loop ((key, PyNone) # rest) indent lines =
     to_toml_loop rest indent (lines @ [pad indent @ key @ '' = '' @ ''None''])"
  by pat_completeness auto
termination
  by (relation "measure (\<lambda>(d, indent, lines). size_list (size_prod (\<lambda>_. 0) size) d)") auto

definition to_toml :: "pydict \<Rightarrow> nat \<Rightarrow> py_error + string" where
  "to_toml data indent =
     (case to_toml_loop data indent [] of
        Inl e \<Rightarrow> Inl e
      | Inr lines \<Rightarrow> Inr (join_lines lines))"

section \<open>The grammar\<close>

text \<open>
  The terminals of \<^verbatim>\<open>grammar\<close>. The parser is built with \<^verbatim>\<open>parser="lalr"\<close>, whose lexer
  offers in each parser state only the terminals that state accepts. The keyword
  \<^verbatim>\<open>table\<close> also has the shape of an \<^verbatim>\<open>IDENT\<close>, and no state accepts both, so the word
  is an \<^verbatim>\<open>IDENT\<close> where a name is expected and the keyword where a value is expected:
  the lexer below yields \<open>IDENT ''table''\<close> and the parser below takes it for the keyword in
  value position. \<^verbatim>\<open>".("\<close> and \<^verbatim>\<open>")."\<close> are the two anonymous two-character terminals.
\<close>

datatype token =
    IDENT string | BIN_NUMBER string
  | COLON | EQUAL | COMMA | SEMICOLON
  | LPAR | RPAR | LSQB | RSQB
  | DOT_LPAR | RPAR_DOT

text \<open>\<^verbatim>\<open>WS\<close> of \<^verbatim>\<open>common.lark\<close> is \<^verbatim>\<open>/[ \t\f\r\n]/+\<close>.\<close>

definition is_ws :: "char \<Rightarrow> bool" where
  "is_ws c = (c \<in> set [CHR 0x20, CHR 0x09, CHR 0x0C, CHR 0x0D, CHR 0x0A])"

text \<open>\<^verbatim>\<open>[a-z]\<close>\<close>

definition is_lower :: "char \<Rightarrow> bool" where
  "is_lower c = (c \<in> set ''abcdefghijklmnopqrstuvwxyz'')"

text \<open>\<^verbatim>\<open>[01]\<close>\<close>

definition is_bin :: "char \<Rightarrow> bool" where
  "is_bin c = (c = CHR ''0'' \<or> c = CHR ''1'')"

text \<open>
  The rest of a \<^verbatim>\<open>COMMENT\<close> after its opening \<^verbatim>\<open>--[[\<close>: \<^verbatim>\<open>[\s\S]*?\]\]\<close> ends at the first
  \<^verbatim>\<open>]]\<close>. The result is the text after the comment, or \<open>None\<close> when the comment is not
  closed.
\<close>

fun skip_comment :: "string \<Rightarrow> string option" where
  "skip_comment (a # b # cs) =
     (if a = CHR '']'' \<and> b = CHR '']'' then Some cs else skip_comment (b # cs))"
| "skip_comment _ = None"

text \<open>
  One step of the lexer on the input \<open>c # cs\<close>: the terminal that matches at its start and
  the text after it. Ignored text (\<^verbatim>\<open>WS\<close>, \<^verbatim>\<open>COMMENT\<close>) gives no token, every other
  terminal takes its longest match, and a character that starts no terminal is the
  lexer's \<^verbatim>\<open>UnexpectedInput\<close> (\<open>None\<close>).
\<close>

definition scan :: "char \<Rightarrow> string \<Rightarrow> (token option \<times> string) option" where
  "scan c cs =
     (if is_ws c then Some (None, cs)
      else if take 4 (c # cs) = ''--[['' then map_option (Pair None) (skip_comment (drop 3 cs))
      else if is_lower c then
        Some (Some (IDENT (c # takeWhile is_lower cs)), dropWhile is_lower cs)
      else if c = CHR ''0'' \<and> (take 1 cs = ''b'' \<or> take 1 cs = ''B'')
          \<and> takeWhile is_bin (drop 1 cs) \<noteq> [] then
        Some (Some (BIN_NUMBER (c # take 1 cs @ takeWhile is_bin (drop 1 cs))),
              dropWhile is_bin (drop 1 cs))
      else if c = CHR ''.'' \<and> take 1 cs = ''('' then Some (Some DOT_LPAR, drop 1 cs)
      else if c = CHR '')'' \<and> take 1 cs = ''.'' then Some (Some RPAR_DOT, drop 1 cs)
      else if c = CHR '':'' then Some (Some COLON, cs)
      else if c = CHR ''='' then Some (Some EQUAL, cs)
      else if c = CHR '','' then Some (Some COMMA, cs)
      else if c = CHR '';'' then Some (Some SEMICOLON, cs)
      else if c = CHR ''('' then Some (Some LPAR, cs)
      else if c = CHR '')'' then Some (Some RPAR, cs)
      else if c = CHR ''['' then Some (Some LSQB, cs)
      else if c = CHR '']'' then Some (Some RSQB, cs)
      else None)"

text \<open>The lexer: the tokens of the whole text, or \<open>None\<close> for \<^verbatim>\<open>UnexpectedInput\<close>.\<close>

function lex :: "string \<Rightarrow> token list option" where
  "lex [] = Some []"
| "lex (c # cs) =
     (case scan c cs of
        None \<Rightarrow> None
      | Some (None, rest) \<Rightarrow> lex rest
      | Some (Some tok, rest) \<Rightarrow> map_option ((#) tok) (lex rest))"
  by pat_completeness auto
termination
proof -
  have comment: "skip_comment s = Some r \<Longrightarrow> length r < length s" for s r
    by (induction s rule: skip_comment.induct) (auto split: if_splits)
  have lower: "length (dropWhile is_lower s) \<le> length s"
    and bin: "length (dropWhile is_bin (drop 1 s)) \<le> length s" for s
    using length_dropWhile_le [of is_lower s] length_dropWhile_le [of is_bin "drop 1 s"]
    by simp_all
  have shorter: "length rest < Suc (length cs)" if "scan c cs = Some (x, rest)" for c cs x rest
    using that lower [of cs] bin [of cs]
    by (auto simp: scan_def split: if_splits dest!: comment)
  show ?thesis
    by (relation "measure length") (auto intro: shorter)
qed

declare lex.simps [simp del]

text \<open>
  The parser, one function for each rule of the grammar:
  \<^verbatim>\<open>value: number | dict | const_ref\<close>, \<^verbatim>\<open>dict_entry: IDENT "=" value ","?\<close>,
  \<^verbatim>\<open>dict_entry*\<close> inside \<^verbatim>\<open>table([ ... ])\<close>, and \<^verbatim>\<open>start: statement*\<close> with
  \<^verbatim>\<open>const_decl: IDENT ":" value ";"\<close>. The first argument bounds the depth of the
  recursion; \<open>Out_of_fuel\<close> tells a bound that was too small from a rejected input.
\<close>

datatype 'a parse = Out_of_fuel | Unexpected_input | Parsed 'a "token list"

fun parse_value :: "nat \<Rightarrow> token list \<Rightarrow> tree parse"
  and parse_dict_entry :: "nat \<Rightarrow> token list \<Rightarrow> (string \<times> tree) parse"
  and parse_dict_entries :: "nat \<Rightarrow> token list \<Rightarrow> (string \<times> tree) list parse" where
  "parse_value 0 toks = Out_of_fuel"
| "parse_value (Suc n) toks =
     (case toks of
        BIN_NUMBER text # rest \<Rightarrow> Parsed (Number text) rest
      | DOT_LPAR # IDENT name # RPAR_DOT # rest \<Rightarrow> Parsed (Use_const name) rest
      | IDENT word # LPAR # LSQB # rest \<Rightarrow>
          (if word = ''table'' then
             (case parse_dict_entries n rest of
                Out_of_fuel \<Rightarrow> Out_of_fuel
              | Unexpected_input \<Rightarrow> Unexpected_input
              | Parsed entries (RSQB # RPAR # rest') \<Rightarrow> Parsed (Make_dict entries) rest'
              | Parsed entries _ \<Rightarrow> Unexpected_input)
           else Unexpected_input)
      | _ \<Rightarrow> Unexpected_input)"
| "parse_dict_entry 0 toks = Out_of_fuel"
| "parse_dict_entry (Suc n) toks =
     (case toks of
        IDENT key # EQUAL # rest \<Rightarrow>
          (case parse_value n rest of
             Out_of_fuel \<Rightarrow> Out_of_fuel
           | Unexpected_input \<Rightarrow> Unexpected_input
           | Parsed v (COMMA # rest') \<Rightarrow> Parsed (key, v) rest'
           | Parsed v rest' \<Rightarrow> Parsed (key, v) rest')
      | _ \<Rightarrow> Unexpected_input)"
| "parse_dict_entries 0 toks = Out_of_fuel"
| "parse_dict_entries (Suc n) toks =
     (case toks of
        IDENT key # rest \<Rightarrow>
          (case parse_dict_entry n toks of
             Out_of_fuel \<Rightarrow> Out_of_fuel
           | Unexpected_input \<Rightarrow> Unexpected_input
           | Parsed entry rest' \<Rightarrow>
               (case parse_dict_entries n rest' of
                  Out_of_fuel \<Rightarrow> Out_of_fuel
                | Unexpected_input \<Rightarrow> Unexpected_input
                | Parsed entries rest'' \<Rightarrow> Parsed (entry # entries) rest''))
      | _ \<Rightarrow> Parsed [] toks)"

definition parse_statement :: "nat \<Rightarrow> token list \<Rightarrow> statement parse" where
  "parse_statement n toks =
     (case toks of
        IDENT name # COLON # rest \<Rightarrow>
          (case parse_value n rest of
             Out_of_fuel \<Rightarrow> Out_of_fuel
           | Unexpected_input \<Rightarrow> Unexpected_input
           | Parsed v (SEMICOLON # rest') \<Rightarrow> Parsed (Declare_const name v) rest'
           | Parsed v _ \<Rightarrow> Unexpected_input)
      | _ \<Rightarrow>
          (case parse_dict_entry n toks of
             Out_of_fuel \<Rightarrow> Out_of_fuel
           | Unexpected_input \<Rightarrow> Unexpected_input
           | Parsed (key, v) rest \<Rightarrow> Parsed (Dict_item key v) rest))"

fun parse_start :: "nat \<Rightarrow> token list \<Rightarrow> statement list parse" where
  "parse_start n [] = Parsed [] []"
| "parse_start 0 toks = Out_of_fuel"
| "parse_start (Suc n) toks =
     (case parse_statement n toks of
        Out_of_fuel \<Rightarrow> Out_of_fuel
      | Unexpected_input \<Rightarrow> Unexpected_input
      | Parsed s rest \<Rightarrow>
          (case parse_start n rest of
             Out_of_fuel \<Rightarrow> Out_of_fuel
           | Unexpected_input \<Rightarrow> Unexpected_input
           | Parsed ss rest' \<Rightarrow> Parsed (s # ss) rest'))"

text \<open>
  \<^verbatim>\<open>parser.parse(text)\<close>: the statements of the \<^verbatim>\<open>start\<close> node, or \<open>Inl ()\<close> for Lark's
  \<^verbatim>\<open>UnexpectedInput\<close>; \<open>None\<close> only if the bound on the recursion were too small.
\<close>

definition parse :: "string \<Rightarrow> (unit + statement list) option" where
  "parse text =
     (case lex text of
        None \<Rightarrow> Some (Inl ())
      | Some toks \<Rightarrow>
          (case parse_start (2 * length toks + 2) toks of
             Out_of_fuel \<Rightarrow> None
           | Unexpected_input \<Rightarrow> Some (Inl ())
           | Parsed program rest \<Rightarrow> Some (Inr program)))"

section \<open>\<^verbatim>\<open>main\<close>\<close>

text \<open>
  What a run leaves behind: the text on standard output, the reports on standard error in
  the order they are printed, and the exit code. A report is one \<^verbatim>\<open>print\<close> to standard
  error: \<^verbatim>\<open>Syntax error: <e>\<close>, whose text \<^verbatim>\<open><e>\<close> is made by Lark and is not modelled;
  \<^verbatim>\<open>Error: <err>\<close> for a message of the transformer; or the traceback of an exception
  that \<^verbatim>\<open>main\<close> does not catch.
\<close>

datatype report = Syntax_error | Error string | Traceback py_error

record outcome =
  stdout :: string
  stderr :: "report list"
  exit_code :: nat

text \<open>
  \<^verbatim>\<open>main\<close>, from the text read from the file on: reading the arguments and the file is
  outside the model. \<^verbatim>\<open>print\<close> ends the text it writes with a line feed.
\<close>

definition main :: "string \<Rightarrow> outcome option" where
  "main text =
     (case parse text of
        None \<Rightarrow> None
      | Some (Inl _) \<Rightarrow> Some \<lparr>stdout = [], stderr = [Syntax_error], exit_code = 1\<rparr>
      | Some (Inr program) \<Rightarrow>
          (case transform program ConfigTransformer of
             Inl e \<Rightarrow> Some \<lparr>stdout = [], stderr = [Traceback e], exit_code = 1\<rparr>
           | Inr (result, t) \<Rightarrow>
               (if errors t \<noteq> [] then
                  Some \<lparr>stdout = [], stderr = map Error (errors t), exit_code = 1\<rparr>
                else
                  (case to_toml result 0 of
                     Inl e \<Rightarrow> Some \<lparr>stdout = [], stderr = [Traceback e], exit_code = 1\<rparr>
                   | Inr toml \<Rightarrow>
                       Some \<lparr>stdout = toml @ [newline], stderr = [], exit_code = 0\<rparr>))))"

section \<open>Specification-side definitions\<close>

text \<open>
  The rendering the specification gives for a table: the entries in insertion order; an
  integer entry is the line \<^verbatim>\<open>key = <decimal integer>\<close>, a table entry is the header
  \<^verbatim>\<open>[key]\<close> followed by the rendering of the nested table one level deeper, each behind
  \<open>indent\<close> copies of the two-space pad; the lines are joined with line feeds.
  (\<^verbatim>\<open>None\<close>, which a successful run never serialises, is written as the interpreter
  writes it.)
\<close>

function toml_lines :: "nat \<Rightarrow> pydict \<Rightarrow> string list" where
  "toml_lines indent [] = []"
| "toml_lines indent ((key, PyInt i) # rest) =
     (pad indent @ key @ '' = '' @ str_int i) # toml_lines indent rest"
| "toml_lines indent ((key, PyDict d) # rest) =
     (pad indent @ ''['' @ key @ '']'') # join_lines (toml_lines (indent + 1) d)
       # toml_lines indent rest"
| "toml_lines indent ((key, PyNone) # rest) =
     (pad indent @ key @ '' = None'') # toml_lines indent rest"
  by pat_completeness auto
termination
  by (relation "measure (\<lambda>(indent, d). size_list (size_prod (\<lambda>_. 0) size) d)") auto

definition toml_text :: "pydict \<Rightarrow> nat \<Rightarrow> string" where
  "toml_text data indent = join_lines (toml_lines indent data)"

text \<open>The lines of one entry.\<close>

fun entry_lines :: "nat \<Rightarrow> string \<times> pyval \<Rightarrow> string list" where
  "entry_lines indent (key, PyInt i) = [pad indent @ key @ '' = '' @ str_int i]"
| "entry_lines indent (key, PyDict d) = [pad indent @ ''['' @ key @ '']'', toml_text d (indent + 1)]"
| "entry_lines indent (key, PyNone) = [pad indent @ key @ '' = None'']"

text \<open>
  The values the interpreter can format: every integer in them, at any depth, has at most
  4300 decimal digits.
\<close>

fun small_ints :: "pyval \<Rightarrow> bool" where
  "small_ints (PyInt i) = (\<bar>i\<bar> < 10 ^ max_str_digits)"
| "small_ints (PyDict d) = (\<forall>(k, v) \<in> set d. small_ints v)"
| "small_ints PyNone = True"


text \<open>The names of the constant declarations among some statements, in source order.\<close>

fun decl_names :: "statement list \<Rightarrow> string list" where
  "decl_names [] = []"
| "decl_names (Declare_const name child # ss) = name # decl_names ss"
| "decl_names (Dict_item key child # ss) = decl_names ss"

text \<open>The keys of the \<^verbatim>\<open>=\<close> entries among some statements, in source order.\<close>

fun entry_keys :: "statement list \<Rightarrow> string list" where
  "entry_keys [] = []"
| "entry_keys (Declare_const name child # ss) = entry_keys ss"
| "entry_keys (Dict_item key child # ss) = key # entry_keys ss"

text \<open>The value of a statement.\<close>

fun stmt_value :: "statement \<Rightarrow> tree" where
  "stmt_value (Declare_const name child) = child"
| "stmt_value (Dict_item key child) = child"

text \<open>The messages of \<^verbatim>\<open>declare_const\<close> are those that start with \<^verbatim>\<open>Constant\<close>.\<close>

definition is_redefinition :: "string \<Rightarrow> bool" where
  "is_redefinition msg = (take 9 msg = ''Constant '')"

text \<open>
  The declarations that repeat a name: the names, in source order, of the declarations
  whose name is already known when they are reached.
\<close>

fun redefinitions :: "string set \<Rightarrow> statement list \<Rightarrow> string list" where
  "redefinitions known [] = []"
| "redefinitions known (Declare_const name child # ss) =
     (if name \<in> known then [name] else []) @ redefinitions (insert name known) ss"
| "redefinitions known (Dict_item key child # ss) = redefinitions known ss"

text \<open>The keys of a value, of a tree and of a statement, at every level of nesting.\<close>

fun val_keys :: "pyval \<Rightarrow> string set" where
  "val_keys (PyDict d) = (\<Union>(k, v) \<in> set d. insert k (val_keys v))"
| "val_keys (PyInt i) = {}"
| "val_keys PyNone = {}"

fun tree_keys :: "tree \<Rightarrow> string set" where
  "tree_keys (Make_dict entries) = (\<Union>(k, e) \<in> set entries. insert k (tree_keys e))"
| "tree_keys (Number token) = {}"
| "tree_keys (Use_const name) = {}"

fun stmt_keys :: "statement \<Rightarrow> string set" where
  "stmt_keys (Declare_const name child) = tree_keys child"
| "stmt_keys (Dict_item key child) = insert key (tree_keys child)"

definition program_keys :: "statement list \<Rightarrow> string set" where
  "program_keys program = (\<Union>s \<in> set program. stmt_keys s)"

text \<open>The keys, at every level, of the values in the table of constants.\<close>

definition const_keys :: "transformer \<Rightarrow> string set" where
  "const_keys t = (\<Union>(k, v) \<in> set (constants t). val_keys v)"

text \<open>
  The table a sequence of entries builds when each is stored in turn, the keys that repeat
  an earlier key (one for each repeat, in source order), and the tuples among the items of
  \<^verbatim>\<open>start\<close>.
\<close>

definition dict_of_items :: "(string \<times> 'v) list \<Rightarrow> (string \<times> 'v) list" where
  "dict_of_items items = fold (\<lambda>(k, v). py_setitem k v) items []"

fun repeats :: "string set \<Rightarrow> string list \<Rightarrow> string list" where
  "repeats seen [] = []"
| "repeats seen (k # ks) = (if k \<in> seen then [k] else []) @ repeats (insert k seen) ks"

fun tuples :: "'a option list \<Rightarrow> 'a list" where
  "tuples [] = []"
| "tuples (None # items) = tuples items"
| "tuples (Some x # items) = x # tuples items"

text \<open>
  The base-2 value of a digit string, as positional notation defines it: the digit at
  position \<open>i\<close> of \<open>n\<close> digits counts \<open>2 ^ (n - 1 - i)\<close>.
\<close>

definition base2_value :: "string \<Rightarrow> int" where
  "base2_value digits =
     (\<Sum>i<length digits. (if digits ! i = CHR ''1'' then 1 else 0) * 2 ^ (length digits - 1 - i))"

text \<open>
  Resolution as the specification describes it. A value is resolved in an environment, the
  constants visible at that point: a literal is the integer \<open>number\<close> gives, a table is
  built from its entries resolved in the same environment, a reference is the value of the
  constant, or \<^verbatim>\<open>None\<close> when the environment has no such constant.
\<close>

fun resolve :: "(string \<rightharpoonup> pyval) \<Rightarrow> tree \<Rightarrow> pyval" where
  "resolve env (Number token) = (case number token of Inr v \<Rightarrow> v | Inl e \<Rightarrow> PyNone)"
| "resolve env (Use_const name) = (case env name of Some v \<Rightarrow> v | None \<Rightarrow> PyNone)"
| "resolve env (Make_dict entries) =
     PyDict (dict_of_items (map (\<lambda>(key, child). (key, resolve env child)) entries))"

text \<open>The names a tree refers to, at any depth, in source order.\<close>

fun references :: "tree \<Rightarrow> string list" where
  "references (Number token) = []"
| "references (Use_const name) = [name]"
| "references (Make_dict entries) = concat (map (\<lambda>(key, child). references child) entries)"

text \<open>
  The constants some statements declare: each declaration is resolved in the environment
  of the statements before it, and replaces an earlier declaration of the same name.
\<close>

fun add_declaration :: "statement \<Rightarrow> (string \<rightharpoonup> pyval) \<Rightarrow> (string \<rightharpoonup> pyval)" where
  "add_declaration (Declare_const name child) env = env(name \<mapsto> resolve env child)"
| "add_declaration (Dict_item key child) env = env"

definition declared :: "statement list \<Rightarrow> (string \<rightharpoonup> pyval)" where
  "declared before = fold add_declaration before Map.empty"

text \<open>
  What a program puts out when no constant is visible before its declaration: the entries
  of the statements after \<open>before\<close>, each resolved in the environment of the statements
  in front of it; and the references of those statements to a name that no statement in
  front of them declares.
\<close>

fun stmt_items :: "(string \<rightharpoonup> pyval) \<Rightarrow> statement \<Rightarrow> (string \<times> pyval) list" where
  "stmt_items env (Declare_const name child) = []"
| "stmt_items env (Dict_item key child) = [(key, resolve env child)]"

fun items_from :: "statement list \<Rightarrow> statement list \<Rightarrow> (string \<times> pyval) list" where
  "items_from before [] = []"
| "items_from before (s # after) =
     stmt_items (declared before) s @ items_from (before @ [s]) after"

fun undeclared_from :: "statement list \<Rightarrow> statement list \<Rightarrow> string list" where
  "undeclared_from before [] = []"
| "undeclared_from before (s # after) =
     filter (\<lambda>name. name \<notin> set (decl_names before)) (references (stmt_value s))
       @ undeclared_from (before @ [s]) after"

text \<open>The messages of \<^verbatim>\<open>use_const\<close> are those that start with \<^verbatim>\<open>Undefined constant\<close>.\<close>

definition is_undefined :: "string \<Rightarrow> bool" where
  "is_undefined msg = (take 19 msg = ''Undefined constant '')"

text \<open>The environment a state of the transformer holds.\<close>

definition env_of :: "transformer \<Rightarrow> (string \<rightharpoonup> pyval)" where
  "env_of t = (\<lambda>name. py_getitem name (constants t))"

text \<open>
  The literals the lexer can produce: \<^verbatim>\<open>BIN_NUMBER: /0[bB][01]+/\<close>. A tree, a program or
  a list of tokens is valid when every literal in it has this shape.
\<close>

fun is_bin_literal :: "string \<Rightarrow> bool" where
  "is_bin_literal (z # b # d # digits) =
     (z = CHR ''0'' \<and> (b = CHR ''b'' \<or> b = CHR ''B'') \<and> list_all is_bin (d # digits))"
| "is_bin_literal _ = False"

fun valid_tree :: "tree \<Rightarrow> bool" where
  "valid_tree (Number token) = is_bin_literal token"
| "valid_tree (Use_const name) = True"
| "valid_tree (Make_dict entries) = (\<forall>(key, child) \<in> set entries. valid_tree child)"

definition valid_program :: "statement list \<Rightarrow> bool" where
  "valid_program program = (\<forall>s \<in> set program. valid_tree (stmt_value s))"

definition valid_tokens :: "token list \<Rightarrow> bool" where
  "valid_tokens toks = (\<forall>tok \<in> set toks. case tok of BIN_NUMBER s \<Rightarrow> is_bin_literal s | _ \<Rightarrow> True)"

section \<open>The serialiser\<close>

lemma str_nat_small: "n < 10 \<Longrightarrow> str_nat n = [digit_char n]"
  by (subst str_nat.simps) simp

lemma str_nat_large: "\<not> n < 10 \<Longrightarrow> str_nat n = str_nat (n div 10) @ [digit_char (n mod 10)]"
  by (subst str_nat.simps) simp

lemma str_nat_not_Nil: "str_nat n \<noteq> []"
  by (subst str_nat.simps) simp

lemma str_nat_length: "0 < k \<Longrightarrow> (length (str_nat n) \<le> k) = (n < 10 ^ k)"
proof (induction n arbitrary: k rule: str_nat.induct)
  case (1 n)
  show ?case
  proof (cases "n < 10")
    case True
    have "(10::nat) ^ 1 \<le> 10 ^ k"
      using "1.prems" by (intro power_increasing) simp_all
    with True have "n < 10 ^ k" by simp
    with True "1.prems" show ?thesis
      by (simp add: str_nat_small)
  next
    case False
    show ?thesis
    proof (cases k)
      case 0
      with "1.prems" show ?thesis by simp
    next
      case (Suc j)
      show ?thesis
      proof (cases "j = 0")
        case True
        with False Suc show ?thesis
          by (simp add: str_nat_large str_nat_not_Nil)
      next
        case nz: False
        then have "(length (str_nat (n div 10)) \<le> j) = (n div 10 < 10 ^ j)"
          using "1.IH" [OF False, of j] by simp
        moreover have "(n div 10 < 10 ^ j) = (n < 10 ^ j * 10)"
          by (rule div_less_iff_less_mult) simp
        ultimately show ?thesis
          using False by (simp add: Suc str_nat_large mult.commute)
      qed
    qed
  qed
qed

lemma max_str_digits_pos: "0 < max_str_digits"
  by (simp add: max_str_digits_def)

lemma digits_within_limit:
  "(length (str_nat (nat \<bar>i\<bar>)) \<le> max_str_digits) = (\<bar>i\<bar> < 10 ^ max_str_digits)"
proof -
  have "(nat \<bar>i\<bar> < 10 ^ max_str_digits) = (\<bar>i\<bar> < 10 ^ max_str_digits)"
    by (simp add: nat_less_iff)
  with str_nat_length [OF max_str_digits_pos, of "nat \<bar>i\<bar>"] show ?thesis
    by simp
qed

lemma py_str_small: "\<bar>i\<bar> < 10 ^ max_str_digits \<Longrightarrow> py_str i = Inr (str_int i)"
  using digits_within_limit [of i] by (simp add: py_str_def)

lemma py_str_large: "\<not> \<bar>i\<bar> < 10 ^ max_str_digits \<Longrightarrow> py_str i = Inl ValueError"
  using digits_within_limit [of i] by (simp add: py_str_def)

lemma one_digit_small: "\<bar>i\<bar> < 10 \<Longrightarrow> small_ints (PyInt i)"
proof -
  assume a: "\<bar>i\<bar> < 10"
  have "(10::int) ^ 1 \<le> 10 ^ max_str_digits"
    using max_str_digits_pos by (intro power_increasing) simp_all
  with a show ?thesis by simp
qed

lemma limit_not_small: "\<not> small_ints (PyInt (10 ^ max_str_digits))"
  by simp

lemma to_toml_loop_spec:
  "\<forall>acc. to_toml_loop data indent acc
     = (if small_ints (PyDict data) then Inr (acc @ toml_lines indent data) else Inl ValueError)"
proof (rule to_toml_loop.induct
    [of "\<lambda>d i l. \<forall>acc. to_toml_loop d i acc
          = (if small_ints (PyDict d) then Inr (acc @ toml_lines i d) else Inl ValueError)"
        data indent "[]"],
    goal_cases)
  case (1 indent lines)
  show ?case by simp
next
  case (2 key d rest indent lines)
  have nested: "to_toml_loop d (indent + 1) []
      = (if small_ints (PyDict d) then Inr (toml_lines (indent + 1) d) else Inl ValueError)"
    using 2(1) by simp
  show ?case
  proof (cases "small_ints (PyDict d)")
    case True
    with nested have n: "to_toml_loop d (indent + 1) [] = Inr (toml_lines (indent + 1) d)"
      by simp
    from 2(2) [OF n]
    have rest: "to_toml_loop rest indent acc
        = (if small_ints (PyDict rest) then Inr (acc @ toml_lines indent rest) else Inl ValueError)"
      for acc
      by blast
    from True show ?thesis
      by (simp add: n [simplified] rest)
  next
    case False
    with nested have "to_toml_loop d (Suc indent) [] = Inl ValueError"
      by simp
    with False show ?thesis
      by simp
  qed
next
  case (3 key i rest indent lines)
  show ?case
  proof (cases "\<bar>i\<bar> < 10 ^ max_str_digits")
    case True
    note s = py_str_small [OF True]
    from 3 [OF s]
    have rest: "to_toml_loop rest indent acc
        = (if small_ints (PyDict rest) then Inr (acc @ toml_lines indent rest) else Inl ValueError)"
      for acc
      by blast
    from True show ?thesis
      by (simp add: s rest)
  next
    case False
    note l = py_str_large [OF False]
    from False show ?thesis
      by (simp add: l)
  qed
next
  case (4 key rest indent lines)
  then have rest: "to_toml_loop rest indent acc
      = (if small_ints (PyDict rest) then Inr (acc @ toml_lines indent rest) else Inl ValueError)"
    for acc
    by blast
  show ?case
    by (simp add: rest)
qed

lemma to_toml_spec:
  "to_toml data indent
     = (if small_ints (PyDict data) then Inr (toml_text data indent) else Inl ValueError)"
  using to_toml_loop_spec [of data indent] by (simp add: to_toml_def toml_text_def)

lemma toml_lines_entries: "toml_lines indent data = concat (map (entry_lines indent) data)"
  by (induction indent data rule: toml_lines.induct) (simp_all add: toml_text_def)

lemma toml_text_entries: "toml_text data indent = join_lines (concat (map (entry_lines indent) data))"
  by (simp add: toml_text_def toml_lines_entries)

lemma join_lines_snoc:
  "join_lines (ls @ [l]) = (if ls = [] then l else join_lines ls @ [newline] @ l)"
  by (induction ls rule: join_lines.induct) auto

text \<open>
  C8. For every table whose integers the interpreter can format (at most 4300 decimal
  digits each, at any depth), the serialiser returns the text the specification gives:
  the entries in insertion order; an integer entry gives the line
  \<^verbatim>\<open>key = <decimal integer>\<close>, a table entry gives the header \<^verbatim>\<open>[key]\<close> and then the
  rendering of the nested table at \<open>indent + 1\<close>, each line behind \<open>indent\<close> copies of two
  spaces; a header holds the entry's own key only, never its parents'; the lines are
  joined with line feeds and nothing follows the last line. For a table with a longer
  integer the serialiser raises \<^verbatim>\<open>ValueError\<close> instead.
\<close>

theorem to_toml_renders_entries:
  "(small_ints (PyDict data)
      \<longrightarrow> to_toml data indent = Inr (join_lines (concat (map (entry_lines indent) data))))
   \<and> (\<not> small_ints (PyDict data) \<longrightarrow> to_toml data indent = Inl ValueError)
   \<and> entry_lines indent (key, PyInt i) = [pad indent @ key @ '' = '' @ str_int i]
   \<and> entry_lines indent (key, PyDict d)
       = [pad indent @ ''['' @ key @ '']'', join_lines (concat (map (entry_lines (indent + 1)) d))]
   \<and> pad indent = concat (replicate indent ''  '')
   \<and> (small_ints (PyDict (data @ [(key, PyInt i)]))
      \<longrightarrow> (\<exists>before. to_toml (data @ [(key, PyInt i)]) indent
            = Inr (before @ key @ '' = '' @ str_int i)))
   \<and> to_toml [(a, PyDict [(b, PyDict [(c, PyInt 1)])])] 0
       = Inr (''['' @ a @ '']'' @ [newline] @ ''  ['' @ b @ '']'' @ [newline]
              @ ''    '' @ c @ '' = 1'')
   \<and> str_int 8 = ''8'' \<and> str_int 1024 = ''1024''"
proof (intro conjI impI)
  show "to_toml data indent = Inr (join_lines (concat (map (entry_lines indent) data)))"
    if "small_ints (PyDict data)"
    using that by (simp only: to_toml_spec toml_text_entries if_True)
  show "to_toml data indent = Inl ValueError" if "\<not> small_ints (PyDict data)"
    using that by (simp only: to_toml_spec if_False)
  show "entry_lines indent (key, PyInt i) = [pad indent @ key @ '' = '' @ str_int i]"
    by simp
  show "entry_lines indent (key, PyDict d)
      = [pad indent @ ''['' @ key @ '']'', join_lines (concat (map (entry_lines (indent + 1)) d))]"
    by (simp add: toml_text_entries)
  show "pad indent = concat (replicate indent ''  '')"
    by (simp add: pad_def)
  show "\<exists>before. to_toml (data @ [(key, PyInt i)]) indent = Inr (before @ key @ '' = '' @ str_int i)"
    if small: "small_ints (PyDict (data @ [(key, PyInt i)]))"
  proof -
    define ls where "ls = concat (map (entry_lines indent) data)"
    have "to_toml (data @ [(key, PyInt i)]) indent
        = Inr (join_lines (concat (map (entry_lines indent) (data @ [(key, PyInt i)]))))"
      using small by (simp only: to_toml_spec toml_text_entries if_True)
    then have eq: "to_toml (data @ [(key, PyInt i)]) indent
        = Inr (join_lines (ls @ [pad indent @ key @ '' = '' @ str_int i]))"
      by (simp add: ls_def)
    show ?thesis
    proof (cases "ls = []")
      case True
      show ?thesis
        by (rule exI [of _ "pad indent"]) (simp add: eq True)
    next
      case False
      show ?thesis
        by (rule exI [of _ "join_lines ls @ [newline] @ pad indent"])
          (simp add: eq join_lines_snoc False)
    qed
  qed
  have one: "small_ints (PyDict [(a, PyDict [(b, PyDict [(c, PyInt 1)])])])"
    using one_digit_small [of 1] by simp
  have d: "str_int 1 = ''1''"
    by (simp add: str_int_def str_nat_small digit_char_def)
  show "to_toml [(a, PyDict [(b, PyDict [(c, PyInt 1)])])] 0
      = Inr (''['' @ a @ '']'' @ [newline] @ ''  ['' @ b @ '']'' @ [newline]
             @ ''    '' @ c @ '' = 1'')"
    using one by (simp only: to_toml_spec if_True) (simp add: toml_text_def pad_def d)
  show "str_int 8 = ''8''"
    by (simp add: str_int_def str_nat_small digit_char_def)
  show "str_int 1024 = ''1024''"
    by (simp add: str_int_def str_nat_small str_nat_large digit_char_def)
qed

theorem to_toml_renders_entries_witness:
  "to_toml [(''port'', PyInt 8), (''db'', PyDict [(''host'', PyInt 1)])] 0
     = Inr (''port = 8'' @ [newline] @ ''[db]'' @ [newline] @ ''  host = 1'')
   \<and> to_toml [(''n'', PyInt (10 ^ max_str_digits))] 0 = Inl ValueError
   \<and> (\<exists>before. to_toml ([] @ [(''k'', PyInt 8)]) 0 = Inr (before @ ''k'' @ '' = '' @ ''8''))"
proof -
  let ?data = "[(''port'', PyInt 8), (''db'', PyDict [(''host'', PyInt 1)])]"
  have small: "small_ints (PyDict ?data)"
    using one_digit_small [of 8] one_digit_small [of 1] by simp
  have large: "\<not> small_ints (PyDict [(''n'', PyInt (10 ^ max_str_digits))])"
    by simp
  have small': "small_ints (PyDict ([] @ [(''k'', PyInt 8)]))"
    using one_digit_small [of 8] by simp
  have d: "str_int 8 = ''8''" "str_int 1 = ''1''"
    by (simp_all add: str_int_def str_nat_small digit_char_def)
  have lines: "join_lines (concat (map (entry_lines 0) ?data))
      = ''port = 8'' @ [newline] @ ''[db]'' @ [newline] @ ''  host = 1''"
    by (simp add: toml_text_def pad_def d)
  from to_toml_renders_entries [of ?data 0] small lines
  have 1: "to_toml ?data 0 = Inr (''port = 8'' @ [newline] @ ''[db]'' @ [newline] @ ''  host = 1'')"
    by simp
  from to_toml_renders_entries [of "[(''n'', PyInt (10 ^ max_str_digits))]" 0] large
  have 2: "to_toml [(''n'', PyInt (10 ^ max_str_digits))] 0 = Inl ValueError"
    by blast
  from to_toml_renders_entries [of "[]" 0 "''k''" 8] small' d(1)
  have 3: "\<exists>before. to_toml ([] @ [(''k'', PyInt 8)]) 0 = Inr (before @ ''k'' @ '' = '' @ ''8'')"
    by simp
  from 1 2 3 show ?thesis by blast
qed

section \<open>The transformer\<close>

subsection \<open>Dictionaries\<close>

lemma py_contains_getitem: "py_contains k d \<longleftrightarrow> py_getitem k d \<noteq> None"
  by (induction d) auto

lemma py_contains_keys: "py_contains k d \<longleftrightarrow> k \<in> set (map fst d)"
  by (induction d) auto

lemma py_getitem_setitem:
  "py_getitem n (py_setitem m v d) = (if n = m then Some v else py_getitem n d)"
  by (induction d) auto

lemma keys_setitem: "set (map fst (py_setitem k v d)) = insert k (set (map fst d))"
  by (induction k v d rule: py_setitem.induct) auto

lemma set_setitem: "set (py_setitem k v d) \<subseteq> insert (k, v) (set d)"
  by (induction k v d rule: py_setitem.induct) auto

lemma py_getitem_in_set: "py_getitem k d = Some v \<Longrightarrow> (k, v) \<in> set d"
  by (induction d) (auto split: if_splits)

subsection \<open>The traversal step by step\<close>

lemma transform_value_NumberD:
  "transform_value (Number token) t = Inr (v, t') \<Longrightarrow> number token = Inr v \<and> t' = t"
  by (cases "number token") auto

lemma transform_value_Use_constD:
  "transform_value (Use_const name) t = Inr (v, t') \<Longrightarrow> use_const name t = (v, t')"
  by simp

lemma transform_value_Make_dictD:
  "transform_value (Make_dict es) t = Inr (v, t')
    \<Longrightarrow> \<exists>items t1. transform_items es t = Inr (items, t1) \<and> make_dict items t1 = (v, t')"
  by (cases "transform_items es t") auto

lemma transform_items_ConsD:
  "transform_items ((k, c) # es) t = Inr (items, t')
    \<Longrightarrow> \<exists>v t1 rest. transform_value c t = Inr (v, t1) \<and> transform_items es t1 = Inr (rest, t')
          \<and> items = (k, v) # rest"
proof -
  assume a: "transform_items ((k, c) # es) t = Inr (items, t')"
  then obtain v t1 where c: "transform_value c t = Inr (v, t1)"
    by (cases "transform_value c t") auto
  with a obtain rest t2 where r: "transform_items es t1 = Inr (rest, t2)"
    by (cases "transform_items es t1") auto
  from a c r show ?thesis by (simp add: dict_item_def)
qed

lemma transform_statement_DeclD:
  "transform_statement (Declare_const name child) t = Inr (item, t')
    \<Longrightarrow> \<exists>v t1. transform_value child t = Inr (v, t1) \<and> item = None \<and> t' = declare_const name v t1"
  by (cases "transform_value child t") auto

lemma transform_statement_ItemD:
  "transform_statement (Dict_item key child) t = Inr (item, t')
    \<Longrightarrow> \<exists>v. transform_value child t = Inr (v, t') \<and> item = Some (key, v)"
  by (cases "transform_value child t") (auto simp: dict_item_def)

lemma transform_statements_ConsD:
  "transform_statements (s # ss) t = Inr (items, t')
    \<Longrightarrow> \<exists>item t1 rest. transform_statement s t = Inr (item, t1)
          \<and> transform_statements ss t1 = Inr (rest, t') \<and> items = item # rest"
proof -
  assume a: "transform_statements (s # ss) t = Inr (items, t')"
  then obtain item t1 where c: "transform_statement s t = Inr (item, t1)"
    by (cases "transform_statement s t") auto
  with a obtain rest t2 where r: "transform_statements ss t1 = Inr (rest, t2)"
    by (cases "transform_statements ss t1") auto
  from a c r show ?thesis by simp
qed

lemma transform_statements_appendD:
  "transform_statements (xs @ ys) t = Inr (items, t')
    \<Longrightarrow> \<exists>i1 t1 i2. transform_statements xs t = Inr (i1, t1)
          \<and> transform_statements ys t1 = Inr (i2, t') \<and> items = i1 @ i2"
proof (induction xs arbitrary: t items)
  case Nil
  then show ?case by simp
next
  case (Cons s xs)
  from Cons.prems have "transform_statements (s # (xs @ ys)) t = Inr (items, t')" by simp
  from transform_statements_ConsD [OF this] obtain item t1 rest
    where s: "transform_statement s t = Inr (item, t1)"
      and r: "transform_statements (xs @ ys) t1 = Inr (rest, t')" and i: "items = item # rest"
    by blast
  from Cons.IH [OF r] obtain i1 t2 i2
    where a: "transform_statements xs t1 = Inr (i1, t2)"
      and b: "transform_statements ys t2 = Inr (i2, t')" and c: "rest = i1 @ i2"
    by blast
  from s a have "transform_statements (s # xs) t = Inr (item # i1, t2)" by simp
  with b i c show ?case by simp
qed

lemma make_dict_constants: "make_dict items t = (v, t') \<Longrightarrow> constants t' = constants t"
  by (auto simp: make_dict_def split: prod.splits)

lemma use_const_constants: "use_const name t = (v, t') \<Longrightarrow> constants t' = constants t"
  by (auto simp: use_const_def split: option.splits)

lemma transform_keeps_constants:
  "transform_value e t = Inr (v, t') \<Longrightarrow> constants t' = constants t"
  "transform_items es t = Inr (items, t'') \<Longrightarrow> constants t'' = constants t"
proof (induction e t and es t arbitrary: v t' and items t'' rule: transform_value_transform_items.induct)
  case (1 token t)
  from transform_value_NumberD [OF "1.prems"] show ?case by simp
next
  case (2 name t)
  from "2.prems" have "use_const name t = (v, t')" by simp
  then show ?case by (rule use_const_constants)
next
  case (3 entries t)
  from transform_value_Make_dictD [OF "3.prems"] obtain items t1
    where a: "transform_items entries t = Inr (items, t1)" and b: "make_dict items t1 = (v, t')"
    by blast
  from "3.IH" [OF a] make_dict_constants [OF b] show ?case by simp
next
  case (4 t)
  then show ?case by simp
next
  case (5 key child entries t)
  from transform_items_ConsD [OF "5.prems"] obtain v t1 rest
    where a: "transform_value child t = Inr (v, t1)" and b: "transform_items entries t1 = Inr (rest, t'')"
    by blast
  from "5.IH"(1) [OF a] have "constants t1 = constants t" .
  moreover from "5.IH"(2) [OF a _ b] have "constants t'' = constants t1" by simp
  ultimately show ?case by simp
qed

subsection \<open>The table of constants\<close>

lemma declare_const_constants:
  "constants (declare_const name v t) = py_setitem name v (constants t)"
  by (simp add: declare_const_def Let_def)

lemma transform_statement_constants:
  assumes "transform_statement s t = Inr (item, t')"
  shows "py_getitem n (constants t') =
     (case s of
        Declare_const m child \<Rightarrow>
          (if n = m then map_option fst (case transform_value child t of Inr r \<Rightarrow> Some r | Inl e \<Rightarrow> None)
           else py_getitem n (constants t))
      | Dict_item key child \<Rightarrow> py_getitem n (constants t))"
proof (cases s)
  case (Declare_const m child)
  from transform_statement_DeclD [OF assms [unfolded Declare_const]] obtain v t1
    where a: "transform_value child t = Inr (v, t1)" and b: "t' = declare_const m v t1"
    by blast
  from transform_keeps_constants(1) [OF a] have "constants t1 = constants t" .
  with a b show ?thesis
    by (simp add: Declare_const declare_const_constants py_getitem_setitem)
next
  case (Dict_item key child)
  from transform_statement_ItemD [OF assms [unfolded Dict_item]] obtain v
    where a: "transform_value child t = Inr (v, t')"
    by blast
  from transform_keeps_constants(1) [OF a] show ?thesis
    by (simp add: Dict_item)
qed

lemma undeclared_constant_unchanged:
  "n \<notin> set (decl_names ss) \<Longrightarrow> transform_statements ss t = Inr (items, t')
    \<Longrightarrow> py_getitem n (constants t') = py_getitem n (constants t)"
proof (induction ss arbitrary: t items)
  case Nil
  then show ?case by simp
next
  case (Cons s ss)
  from transform_statements_ConsD [OF Cons.prems(2)] obtain item t1 rest
    where s: "transform_statement s t = Inr (item, t1)"
      and r: "transform_statements ss t1 = Inr (rest, t')"
    by blast
  from Cons.prems(1) have n: "n \<notin> set (decl_names ss)"
    by (cases s) auto
  from Cons.prems(1) have "py_getitem n (constants t1) = py_getitem n (constants t)"
    using transform_statement_constants [OF s, of n] by (cases s) auto
  with Cons.IH [OF n r] show ?case by simp
qed

lemma latest_declaration_value:
  assumes run: "transform_statements (p1 @ Declare_const n e # p2) t0 = Inr (items, t1)"
    and later: "n \<notin> set (decl_names p2)"
    and p1: "transform_statements p1 t0 = Inr (i1, ta)"
    and e: "transform_value e ta = Inr (v, tb)"
  shows "py_getitem n (constants t1) = Some v"
proof -
  from transform_statements_appendD [OF run] p1 obtain i2
    where r2: "transform_statements (Declare_const n e # p2) ta = Inr (i2, t1)"
    by auto
  from transform_statements_ConsD [OF r2] obtain item tc rest
    where s: "transform_statement (Declare_const n e) ta = Inr (item, tc)"
      and r: "transform_statements p2 tc = Inr (rest, t1)"
    by blast
  from transform_statement_constants [OF s, of n] e have "py_getitem n (constants tc) = Some v"
    by simp
  with undeclared_constant_unchanged [OF later r] show ?thesis by simp
qed

lemma decl_names_append: "decl_names (xs @ ys) = decl_names xs @ decl_names ys"
  by (induction xs rule: decl_names.induct) auto

lemma last_declaration:
  "n \<in> set (decl_names ss)
    \<Longrightarrow> \<exists>p1 e p2. ss = p1 @ Declare_const n e # p2 \<and> n \<notin> set (decl_names p2)"
proof (induction ss rule: rev_induct)
  case Nil
  then show ?case by simp
next
  case (snoc s ss)
  show ?case
  proof (cases "\<exists>e. s = Declare_const n e")
    case True
    then obtain e where "s = Declare_const n e" by blast
    then have "ss @ [s] = ss @ Declare_const n e # [] \<and> n \<notin> set (decl_names [])"
      by simp
    then show ?thesis by blast
  next
    case False
    then have s: "n \<notin> set (decl_names [s])"
      by (cases s) auto
    with snoc.prems have "n \<in> set (decl_names ss)"
      by (simp add: decl_names_append)
    from snoc.IH [OF this] obtain p1 e p2
      where a: "ss = p1 @ Declare_const n e # p2" and b: "n \<notin> set (decl_names p2)"
      by blast
    from a have "ss @ [s] = p1 @ Declare_const n e # (p2 @ [s])" by simp
    moreover from b s have "n \<notin> set (decl_names (p2 @ [s]))"
      by (simp add: decl_names_append)
    ultimately show ?thesis by blast
  qed
qed

lemma use_const_defined:
  "py_getitem n (constants t) = Some v \<Longrightarrow> transform_value (Use_const n) t = Inr (v, t)"
  by (simp add: use_const_def)

lemma use_const_undefined:
  "py_getitem n (constants t) = None
    \<Longrightarrow> transform_value (Use_const n) t = Inr (PyNone, t\<lparr>errors := errors t @ [undefined_msg n]\<rparr>)"
  by (simp add: use_const_def)


subsection \<open>Redefinitions\<close>

lemma is_redefinition_redefined: "is_redefinition (redefined_msg n)"
  by (simp add: is_redefinition_def redefined_msg_def)

lemma not_redefinition_undefined: "\<not> is_redefinition (undefined_msg n)"
  by (simp add: is_redefinition_def undefined_msg_def)

lemma not_redefinition_duplicate: "\<not> is_redefinition (duplicate_msg k)"
  by (simp add: is_redefinition_def duplicate_msg_def)

lemma make_dict_loop_redefinitions:
  "make_dict_loop items result errs = (r, errs')
    \<Longrightarrow> filter is_redefinition errs' = filter is_redefinition errs"
  by (induction items result errs rule: make_dict_loop.induct)
    (auto simp: not_redefinition_duplicate split: if_splits)

lemma make_dict_redefinitions:
  "make_dict items t = (v, t')
    \<Longrightarrow> filter is_redefinition (errors t') = filter is_redefinition (errors t)"
  by (auto simp: make_dict_def split: prod.splits dest: make_dict_loop_redefinitions)

lemma use_const_redefinitions:
  "use_const name t = (v, t')
    \<Longrightarrow> filter is_redefinition (errors t') = filter is_redefinition (errors t)"
  by (auto simp: use_const_def not_redefinition_undefined split: option.splits)

lemma transform_keeps_redefinitions:
  "transform_value e t = Inr (v, t')
    \<Longrightarrow> filter is_redefinition (errors t') = filter is_redefinition (errors t)"
  "transform_items es t = Inr (items, t'')
    \<Longrightarrow> filter is_redefinition (errors t'') = filter is_redefinition (errors t)"
proof (induction e t and es t arbitrary: v t' and items t'' rule: transform_value_transform_items.induct)
  case (1 token t)
  from transform_value_NumberD [OF "1.prems"] show ?case by simp
next
  case (2 name t)
  from "2.prems" have "use_const name t = (v, t')" by simp
  then show ?case by (rule use_const_redefinitions)
next
  case (3 entries t)
  from transform_value_Make_dictD [OF "3.prems"] obtain items t1
    where a: "transform_items entries t = Inr (items, t1)" and b: "make_dict items t1 = (v, t')"
    by blast
  from "3.IH" [OF a] make_dict_redefinitions [OF b] show ?case by simp
next
  case (4 t)
  then show ?case by simp
next
  case (5 key child entries t)
  from transform_items_ConsD [OF "5.prems"] obtain v t1 rest
    where a: "transform_value child t = Inr (v, t1)" and b: "transform_items entries t1 = Inr (rest, t'')"
    by blast
  from "5.IH"(1) [OF a]
  have "filter is_redefinition (errors t1) = filter is_redefinition (errors t)" .
  moreover from "5.IH"(2) [OF a _ b]
  have "filter is_redefinition (errors t'') = filter is_redefinition (errors t1)" by simp
  ultimately show ?case by simp
qed

lemma declare_const_errors:
  "errors (declare_const name v t)
     = errors t @ (if name \<in> set (map fst (constants t)) then [redefined_msg name] else [])"
  by (simp add: declare_const_def Let_def py_contains_keys)

lemma transform_statement_redefinitions:
  assumes "transform_statement s t = Inr (item, t')"
  shows "filter is_redefinition (errors t')
      = filter is_redefinition (errors t)
        @ map redefined_msg (redefinitions (set (map fst (constants t))) [s])
    \<and> set (map fst (constants t')) = set (map fst (constants t)) \<union> set (decl_names [s])"
proof (cases s)
  case (Declare_const m child)
  from transform_statement_DeclD [OF assms [unfolded Declare_const]] obtain v t1
    where a: "transform_value child t = Inr (v, t1)" and b: "t' = declare_const m v t1"
    by blast
  from transform_keeps_constants(1) [OF a] have c: "constants t1 = constants t" .
  from transform_keeps_redefinitions(1) [OF a]
  have e: "filter is_redefinition (errors t1) = filter is_redefinition (errors t)" .
  show ?thesis
    unfolding Declare_const b
    by (simp add: declare_const_errors declare_const_constants keys_setitem [simplified] c e
        is_redefinition_redefined)
next
  case (Dict_item key child)
  from transform_statement_ItemD [OF assms [unfolded Dict_item]] obtain v
    where a: "transform_value child t = Inr (v, t')"
    by blast
  from transform_keeps_constants(1) [OF a] transform_keeps_redefinitions(1) [OF a]
  show ?thesis
    by (simp add: Dict_item)
qed

lemma redefinitions_Cons:
  "redefinitions known (s # ss)
     = redefinitions known [s] @ redefinitions (known \<union> set (decl_names [s])) ss"
  by (cases s) simp_all

lemma transform_statements_redefinitions:
  "transform_statements ss t = Inr (items, t')
    \<Longrightarrow> filter is_redefinition (errors t')
        = filter is_redefinition (errors t)
          @ map redefined_msg (redefinitions (set (map fst (constants t))) ss)
      \<and> set (map fst (constants t')) = set (map fst (constants t)) \<union> set (decl_names ss)"
proof (induction ss arbitrary: t items)
  case Nil
  then show ?case by simp
next
  case (Cons s ss)
  from transform_statements_ConsD [OF Cons.prems] obtain item t1 rest
    where s: "transform_statement s t = Inr (item, t1)"
      and r: "transform_statements ss t1 = Inr (rest, t')"
    by blast
  note a = transform_statement_redefinitions [OF s]
  note b = Cons.IH [OF r]
  have d: "decl_names (s # ss) = decl_names [s] @ decl_names ss"
    by (cases s) simp_all
  from a b show ?case
    by (simp only: redefinitions_Cons [of _ s ss] d map_append set_append append_assoc Un_assoc)
qed

lemma redefinitions_append:
  "redefinitions known (xs @ ys)
     = redefinitions known xs @ redefinitions (known \<union> set (decl_names xs)) ys"
proof (induction xs arbitrary: known)
  case Nil
  show ?case by simp
next
  case (Cons s xs)
  show ?case
    by (cases s) (simp_all add: Cons.IH)
qed

lemma redefinitions_none:
  "distinct (decl_names ss) \<Longrightarrow> set (decl_names ss) \<inter> known = {}
    \<Longrightarrow> redefinitions known ss = []"
proof (induction ss arbitrary: known)
  case Nil
  show ?case by simp
next
  case (Cons s ss)
  then show ?case
    by (cases s) auto
qed

lemma redefinitions_two_declarations:
  assumes "name \<notin> set (decl_names (p1 @ p2 @ p3))" and "distinct (decl_names (p1 @ p2 @ p3))"
  shows "redefinitions {} (p1 @ Declare_const name e1 # p2 @ Declare_const name e2 # p3) = [name]"
proof -
  from assms have d: "distinct (decl_names p1)" "distinct (decl_names p2)" "distinct (decl_names p3)"
    and i: "set (decl_names p1) \<inter> set (decl_names p2) = {}"
      "set (decl_names p1) \<inter> set (decl_names p3) = {}"
      "set (decl_names p2) \<inter> set (decl_names p3) = {}"
    and n: "name \<notin> set (decl_names p1)" "name \<notin> set (decl_names p2)" "name \<notin> set (decl_names p3)"
    by (auto simp: decl_names_append)
  have 1: "redefinitions {} p1 = []"
    using d(1) by (simp add: redefinitions_none)
  have 2: "redefinitions (insert name (set (decl_names p1))) p2 = []"
    using d(2) i(1) n(2) by (intro redefinitions_none) auto
  have 3: "redefinitions (insert name (set (decl_names p1) \<union> set (decl_names p2))) p3 = []"
    using d(3) i(2,3) n(3) by (intro redefinitions_none) auto
  show ?thesis
    using n(1) by (simp add: redefinitions_append 1 2 3)
qed

subsection \<open>Tables with repeated keys\<close>

text \<open>
  Both loops build the same table from their entries: a key keeps the position of its
  first occurrence and gets the value of its last. \<^verbatim>\<open>make_dict\<close> appends one message for
  each repeat of a key; \<^verbatim>\<open>start\<close> has no access to the messages.
\<close>

lemma make_dict_loop_fold:
  "make_dict_loop items result errs
     = (fold (\<lambda>(k, v). py_setitem k v) items result,
        errs @ map duplicate_msg (repeats (set (map fst result)) (map fst items)))"
proof (induction items result errs rule: make_dict_loop.induct)
  case (1 result errs)
  show ?case by simp
next
  case (2 k v items result errs)
  show ?case
    using "2.IH"
    by (cases "py_contains k result") (simp_all add: py_contains_keys keys_setitem [simplified])
qed

lemma make_dict_loop_repeats:
  "make_dict_loop items [] errs
     = (dict_of_items items, errs @ map duplicate_msg (repeats {} (map fst items)))"
  by (simp add: make_dict_loop_fold dict_of_items_def)

lemma start_loop_fold:
  "start_loop items result = fold (\<lambda>(k, v). py_setitem k v) (tuples items) result"
  by (induction items result rule: start_loop.induct) simp_all

lemma start_tuples: "start items = dict_of_items (tuples items)"
  by (simp add: start_def start_loop_fold dict_of_items_def)

lemma keys_setitem_list:
  "map fst (py_setitem k v d) = (if k \<in> set (map fst d) then map fst d else map fst d @ [k])"
  by (induction k v d rule: py_setitem.induct) auto

lemma dict_of_items_snoc: "dict_of_items (items @ [(k, v)]) = py_setitem k v (dict_of_items items)"
  by (simp add: dict_of_items_def)

lemma dict_of_items_keys:
  "map fst (dict_of_items items) = rev (remdups (rev (map fst items)))"
proof (induction items rule: rev_induct)
  case Nil
  show ?case by (simp add: dict_of_items_def)
next
  case (snoc x items)
  obtain k v where x: "x = (k, v)" by (cases x)
  have s: "set (rev (remdups (rev (map fst items)))) = set (map fst items)"
    by simp
  show ?case
    unfolding x dict_of_items_snoc keys_setitem_list snoc.IH s
    by simp
qed

lemma dict_of_items_value:
  "py_getitem k (dict_of_items items) = map_of (rev items) k"
proof (induction items rule: rev_induct)
  case Nil
  show ?case by (simp add: dict_of_items_def)
next
  case (snoc x items)
  obtain k' v where x: "x = (k', v)" by (cases x)
  show ?case
    unfolding x dict_of_items_snoc py_getitem_setitem snoc.IH
    by simp
qed

lemma count_repeats:
  "count_list (repeats seen ks) k
     = (if k \<in> seen then count_list ks k else count_list ks k - 1)"
proof (induction ks arbitrary: seen)
  case Nil
  show ?case by simp
next
  case (Cons a ks)
  show ?case
    by (simp add: Cons.IH)
qed

lemma repeats_of_key:
  "count_list ks k = Suc n \<Longrightarrow> count_list (repeats {} ks) k = n"
  by (simp add: count_repeats)

subsection \<open>Keys\<close>

lemma start_loop_keys:
  "set (map fst (start_loop items result))
     = set (map fst result) \<union> {k. \<exists>v. Some (k, v) \<in> set items}"
proof (induction items result rule: start_loop.induct)
  case (1 result)
  show ?case by simp
next
  case (2 items result)
  then show ?case by auto
next
  case (3 k v items result)
  have "{ka. \<exists>va. Some (ka, va) \<in> set (Some (k, v) # items)}
      = insert k {ka. \<exists>va. Some (ka, va) \<in> set items}"
    by auto
  with 3 show ?case
    by (simp add: keys_setitem [simplified])
qed

lemma start_loop_set:
  "set (start_loop items result) \<subseteq> set result \<union> {(k, v). Some (k, v) \<in> set items}"
proof (induction items result rule: start_loop.induct)
  case (1 result)
  show ?case by simp
next
  case (2 items result)
  then show ?case by auto
next
  case (3 k v items result)
  from 3 set_setitem [of k v result] show ?case
    by auto
qed

lemma statement_items_keys:
  "transform_statements ss t = Inr (items, t')
    \<Longrightarrow> {k. \<exists>v. Some (k, v) \<in> set items} = set (entry_keys ss)"
proof (induction ss arbitrary: t items)
  case Nil
  then show ?case by simp
next
  case (Cons s ss)
  from transform_statements_ConsD [OF Cons.prems] obtain item t1 rest
    where s: "transform_statement s t = Inr (item, t1)"
      and r: "transform_statements ss t1 = Inr (rest, t')" and i: "items = item # rest"
    by blast
  note IH = Cons.IH [OF r]
  show ?case
  proof (cases s)
    case (Declare_const m child)
    from transform_statement_DeclD [OF s [unfolded Declare_const]] have "item = None"
      by blast
    with IH show ?thesis
      by (simp add: i Declare_const)
  next
    case (Dict_item key child)
    from transform_statement_ItemD [OF s [unfolded Dict_item]] obtain v where "item = Some (key, v)"
      by blast
    with IH show ?thesis
      unfolding i Dict_item by auto
  qed
qed

lemma make_dict_loop_set:
  "make_dict_loop items result errs = (r, errs') \<Longrightarrow> set r \<subseteq> set items \<union> set result"
proof (induction items result errs rule: make_dict_loop.induct)
  case (1 result errs)
  then show ?case by simp
next
  case (2 k v items result errs)
  from "2.prems" have "make_dict_loop items (py_setitem k v result)
      (if py_contains k result then errs @ [duplicate_msg k] else errs) = (r, errs')"
    by simp
  from "2.IH" [OF this] set_setitem [of k v result] show ?case
    by auto
qed

lemma make_dict_keys:
  assumes "make_dict items t = (v, t')"
  shows "val_keys v \<subseteq> (\<Union>(k, v) \<in> set items. insert k (val_keys v))"
proof -
  obtain r errs' where l: "make_dict_loop items [] (errors t) = (r, errs')"
    by (cases "make_dict_loop items [] (errors t)")
  with assms have v: "v = PyDict r"
    by (simp add: make_dict_def)
  from make_dict_loop_set [OF l] have "set r \<subseteq> set items"
    by simp
  then show ?thesis
    unfolding v by auto
qed

lemma use_const_keys:
  assumes "use_const name t = (v, t')"
  shows "val_keys v \<subseteq> const_keys t"
proof (cases "py_getitem name (constants t)")
  case None
  with assms have "v = PyNone"
    by (simp add: use_const_def)
  then show ?thesis by simp
next
  case (Some w)
  with assms have "v = w"
    by (simp add: use_const_def)
  with Some have "(name, v) \<in> set (constants t)"
    by (simp add: py_getitem_in_set)
  then show ?thesis
    unfolding const_keys_def by auto
qed

lemma const_keys_cong: "constants t' = constants t \<Longrightarrow> const_keys t' = const_keys t"
  by (simp add: const_keys_def)

lemma transform_keys:
  "transform_value e t = Inr (v, t') \<Longrightarrow> val_keys v \<subseteq> tree_keys e \<union> const_keys t"
  "transform_items es t = Inr (items, t'')
    \<Longrightarrow> (\<Union>(k, v) \<in> set items. insert k (val_keys v))
        \<subseteq> (\<Union>(k, e) \<in> set es. insert k (tree_keys e)) \<union> const_keys t"
proof (induction e t and es t arbitrary: v t' and items t'' rule: transform_value_transform_items.induct)
  case (1 token t)
  from transform_value_NumberD [OF "1.prems"] have "number token = Inr v"
    by simp
  then have "val_keys v = {}"
    by (auto simp: number_def split: option.splits)
  then show ?case by simp
next
  case (2 name t)
  from "2.prems" have "use_const name t = (v, t')" by simp
  from use_const_keys [OF this] show ?case by auto
next
  case (3 entries t)
  from transform_value_Make_dictD [OF "3.prems"] obtain items t1
    where a: "transform_items entries t = Inr (items, t1)" and b: "make_dict items t1 = (v, t')"
    by blast
  have "val_keys v \<subseteq> (\<Union>(k, v) \<in> set items. insert k (val_keys v))"
    by (rule make_dict_keys [OF b])
  also have "\<dots> \<subseteq> (\<Union>(k, e) \<in> set entries. insert k (tree_keys e)) \<union> const_keys t"
    by (rule "3.IH" [OF a])
  finally show ?case by simp
next
  case (4 t)
  then show ?case by simp
next
  case (5 key child entries t)
  from transform_items_ConsD [OF "5.prems"] obtain v t1 rest
    where a: "transform_value child t = Inr (v, t1)"
      and b: "transform_items entries t1 = Inr (rest, t'')" and i: "items = (key, v) # rest"
    by blast
  from "5.IH"(1) [OF a] have x: "val_keys v \<subseteq> tree_keys child \<union> const_keys t" .
  from transform_keeps_constants(1) [OF a] have c: "const_keys t1 = const_keys t"
    by (rule const_keys_cong)
  from "5.IH"(2) [OF a _ b]
  have y: "(\<Union>(k, v) \<in> set rest. insert k (val_keys v))
      \<subseteq> (\<Union>(k, e) \<in> set entries. insert k (tree_keys e)) \<union> const_keys t"
    by (simp add: c)
  from x y show ?case
    unfolding i by auto
qed

lemma transform_statement_keys:
  assumes "transform_statement s t = Inr (item, t')"
  shows "const_keys t' \<subseteq> const_keys t \<union> stmt_keys s
    \<and> (\<forall>k v. item = Some (k, v) \<longrightarrow> insert k (val_keys v) \<subseteq> const_keys t \<union> stmt_keys s)"
proof (cases s)
  case (Declare_const m child)
  from transform_statement_DeclD [OF assms [unfolded Declare_const]] obtain v t1
    where a: "transform_value child t = Inr (v, t1)" and n: "item = None"
      and b: "t' = declare_const m v t1"
    by blast
  from transform_keeps_constants(1) [OF a] have c: "constants t1 = constants t" .
  from transform_keys(1) [OF a] have v: "val_keys v \<subseteq> tree_keys child \<union> const_keys t" .
  have "set (constants t') \<subseteq> insert (m, v) (set (constants t))"
    unfolding b declare_const_constants c by (rule set_setitem)
  then have "const_keys t' \<subseteq> val_keys v \<union> const_keys t"
    unfolding const_keys_def by auto
  with v n show ?thesis
    by (auto simp: Declare_const)
next
  case (Dict_item key child)
  from transform_statement_ItemD [OF assms [unfolded Dict_item]] obtain v
    where a: "transform_value child t = Inr (v, t')" and i: "item = Some (key, v)"
    by blast
  from transform_keeps_constants(1) [OF a] have c: "const_keys t' = const_keys t"
    by (rule const_keys_cong)
  from transform_keys(1) [OF a] have v: "val_keys v \<subseteq> tree_keys child \<union> const_keys t" .
  from c v i show ?thesis
    by (auto simp: Dict_item)
qed

lemma transform_statements_keys:
  "transform_statements ss t = Inr (items, t')
    \<Longrightarrow> const_keys t' \<subseteq> const_keys t \<union> program_keys ss
      \<and> (\<forall>k v. Some (k, v) \<in> set items \<longrightarrow> insert k (val_keys v) \<subseteq> const_keys t \<union> program_keys ss)"
proof (induction ss arbitrary: t items)
  case Nil
  then show ?case by (simp add: program_keys_def)
next
  case (Cons s ss)
  from transform_statements_ConsD [OF Cons.prems] obtain item t1 rest
    where s: "transform_statement s t = Inr (item, t1)"
      and r: "transform_statements ss t1 = Inr (rest, t')" and i: "items = item # rest"
    by blast
  note a = transform_statement_keys [OF s]
  note b = Cons.IH [OF r]
  have p: "program_keys (s # ss) = stmt_keys s \<union> program_keys ss"
    by (simp add: program_keys_def)
  from a b have 1: "const_keys t' \<subseteq> const_keys t \<union> program_keys (s # ss)"
    unfolding p by blast
  have 2: "insert k (val_keys v) \<subseteq> const_keys t \<union> program_keys (s # ss)"
    if "Some (k, v) \<in> set items" for k v
  proof -
    from that i have "item = Some (k, v) \<or> Some (k, v) \<in> set rest"
      by auto
    then show ?thesis
    proof
      assume "item = Some (k, v)"
      with a show ?thesis unfolding p by blast
    next
      assume "Some (k, v) \<in> set rest"
      with b have "insert k (val_keys v) \<subseteq> const_keys t1 \<union> program_keys ss"
        by blast
      with a show ?thesis unfolding p by blast
    qed
  qed
  from 1 2 show ?case by blast
qed


text \<open>
  C7. The keys of the top-level output table are exactly the keys of the top-level \<^verbatim>\<open>=\<close>
  entries. Every key of the output, at any level of nesting, is the key of an \<^verbatim>\<open>=\<close> entry
  somewhere in the program (a table that reaches the output through a constant brings the
  keys of its own entries); so the name of a constant declaration is a key of the output
  only if it is also the key of an entry.
\<close>

theorem output_keys_are_entry_keys:
  assumes "transform program ConfigTransformer = Inr (result, t)"
  shows "set (map fst result) = set (entry_keys program)
    \<and> val_keys (PyDict result) \<subseteq> program_keys program
    \<and> (\<forall>name \<in> set (decl_names program).
          name \<in> set (map fst result) \<longrightarrow> name \<in> set (entry_keys program))
    \<and> (\<forall>name \<in> set (decl_names program).
          name \<in> val_keys (PyDict result) \<longrightarrow> name \<in> program_keys program)"
proof -
  from assms obtain items
    where run: "transform_statements program ConfigTransformer = Inr (items, t)"
      and res: "result = start items"
    by (cases "transform_statements program ConfigTransformer") (auto simp: transform_def)
  have top: "set (map fst result) = set (entry_keys program)"
    unfolding res start_def start_loop_keys statement_items_keys [OF run] by simp
  have empty: "const_keys ConfigTransformer = {}"
    by (simp add: const_keys_def ConfigTransformer_def)
  from transform_statements_keys [OF run]
  have items: "insert k (val_keys v) \<subseteq> program_keys program" if "Some (k, v) \<in> set items" for k v
    using that unfolding empty by blast
  have "set result \<subseteq> {(k, v). Some (k, v) \<in> set items}"
    using start_loop_set [of items "[]"] unfolding res start_def by simp
  with items have deep: "val_keys (PyDict result) \<subseteq> program_keys program"
    unfolding val_keys.simps by blast
  from top deep show ?thesis by blast
qed

theorem output_keys_are_entry_keys_witness:
  "set (map fst [(''x'', PyInt 1)]) = {''x''} \<and> ''a'' \<notin> val_keys (PyDict [(''x'', PyInt 1)])"
proof -
  let ?program = "[Declare_const ''a'' (Number ''0b1''), Dict_item ''x'' (Use_const ''a'')]"
  have run: "transform ?program ConfigTransformer
      = Inr ([(''x'', PyInt 1)], \<lparr>constants = [(''a'', PyInt 1)], errors = []\<rparr>)"
    by code_simp
  have d: "''a'' \<in> set (decl_names ?program)"
    by simp
  have k: "''a'' \<notin> program_keys ?program"
    by (simp add: program_keys_def)
  have e: "set (entry_keys ?program) = {''x''}"
    by simp
  note inst = output_keys_are_entry_keys [OF run]
  from inst e have "set (map fst [(''x'', PyInt 1)]) = {''x''}"
    by blast
  moreover from inst d k have "''a'' \<notin> val_keys (PyDict [(''x'', PyInt 1)])"
    by blast
  ultimately show ?thesis by blast
qed

subsection \<open>References\<close>

text \<open>
  The traversal computes what the specification's resolver computes: a value is resolved
  in the environment the table of constants holds when the traversal reaches it, and the
  \<^verbatim>\<open>Undefined constant\<close> messages it appends are those of the references the environment
  does not know.
\<close>

lemma is_undefined_undefined: "is_undefined (undefined_msg n)"
  by (simp add: is_undefined_def undefined_msg_def)

lemma not_undefined_redefined: "\<not> is_undefined (redefined_msg n)"
  by (simp add: is_undefined_def redefined_msg_def)

lemma not_undefined_duplicate: "\<not> is_undefined (duplicate_msg k)"
  by (simp add: is_undefined_def duplicate_msg_def)

lemma filter_undefined_duplicates: "filter is_undefined (map duplicate_msg ks) = []"
  by (induction ks) (simp_all add: not_undefined_duplicate)

lemma filter_undefined_undefined: "filter is_undefined (map undefined_msg ns) = map undefined_msg ns"
  by (induction ns) (simp_all add: is_undefined_undefined)

lemma make_dict_result:
  "make_dict items t
     = (PyDict (dict_of_items items),
        t\<lparr>errors := errors t @ map duplicate_msg (repeats {} (map fst items))\<rparr>)"
  by (simp add: make_dict_def make_dict_loop_repeats)

lemma env_of_cong: "constants t' = constants t \<Longrightarrow> env_of t' = env_of t"
  by (simp add: env_of_def)

lemma transform_resolves:
  "transform_value e t = Inr (v, t')
    \<Longrightarrow> v = resolve (env_of t) e
      \<and> filter is_undefined (errors t')
          = filter is_undefined (errors t)
            @ map undefined_msg (filter (\<lambda>n. env_of t n = None) (references e))"
  "transform_items es t = Inr (items, t'')
    \<Longrightarrow> items = map (\<lambda>(key, child). (key, resolve (env_of t) child)) es
      \<and> filter is_undefined (errors t'')
          = filter is_undefined (errors t)
            @ map undefined_msg
                (filter (\<lambda>n. env_of t n = None) (concat (map (\<lambda>(key, child). references child) es)))"
proof (induction e t and es t arbitrary: v t' and items t'' rule: transform_value_transform_items.induct)
  case (1 token t)
  from transform_value_NumberD [OF "1.prems"] show ?case by simp
next
  case (2 name t)
  from "2.prems" have u: "use_const name t = (v, t')" by simp
  show ?case
  proof (cases "py_getitem name (constants t)")
    case None
    with u show ?thesis
      by (auto simp: use_const_def env_of_def is_undefined_undefined)
  next
    case (Some w)
    with u show ?thesis
      by (auto simp: use_const_def env_of_def)
  qed
next
  case (3 entries t)
  from transform_value_Make_dictD [OF "3.prems"] obtain items t1
    where a: "transform_items entries t = Inr (items, t1)" and b: "make_dict items t1 = (v, t')"
    by blast
  from b have v: "v = PyDict (dict_of_items items)"
    and e: "errors t' = errors t1 @ map duplicate_msg (repeats {} (map fst items))"
    by (auto simp: make_dict_result)
  from "3.IH" [OF a] v e show ?case
    by (simp add: filter_undefined_duplicates)
next
  case (4 t)
  then show ?case by simp
next
  case (5 key child entries t)
  from transform_items_ConsD [OF "5.prems"] obtain v t1 rest
    where a: "transform_value child t = Inr (v, t1)"
      and b: "transform_items entries t1 = Inr (rest, t'')" and i: "items = (key, v) # rest"
    by blast
  from transform_keeps_constants(1) [OF a] have c: "env_of t1 = env_of t"
    by (rule env_of_cong)
  from "5.IH"(1) [OF a] "5.IH"(2) [OF a _ b] show ?case
    unfolding i c by simp
qed


lemma declared_Nil: "declared [] = Map.empty"
  by (simp add: declared_def)

lemma declared_snoc: "declared (before @ [s]) = add_declaration s (declared before)"
  by (simp add: declared_def)

lemma decl_names_snoc:
  "decl_names (before @ [s]) = decl_names before @ (case s of Declare_const n e \<Rightarrow> [n] | Dict_item k e \<Rightarrow> [])"
  by (cases s) (simp_all add: decl_names_append)

lemma declared_None: "(declared before name = None) = (name \<notin> set (decl_names before))"
proof (induction before rule: rev_induct)
  case Nil
  show ?case by (simp add: declared_Nil)
next
  case (snoc s before)
  then show ?case
    by (cases s) (simp_all add: declared_snoc decl_names_snoc)
qed

lemma declared_latest:
  "name \<notin> set (decl_names later)
    \<Longrightarrow> declared (before @ Declare_const name e # later) name = Some (resolve (declared before) e)"
proof (induction later rule: rev_induct)
  case Nil
  show ?case
    using declared_snoc [of before "Declare_const name e"] by simp
next
  case (snoc s later)
  from snoc.prems have n: "name \<notin> set (decl_names later)"
    and s: "name \<notin> set (decl_names [s])"
    by (simp_all add: decl_names_append)
  have "declared (before @ Declare_const name e # later @ [s])
      = add_declaration s (declared (before @ Declare_const name e # later))"
    using declared_snoc [of "before @ Declare_const name e # later" s] by simp
  with snoc.IH [OF n] s show ?case
    by (cases s) auto
qed

lemma tuples_Cons: "tuples (item # items) = tuples [item] @ tuples items"
  by (cases item) simp_all

lemma items_from_append:
  "items_from before (xs @ ys) = items_from before xs @ items_from (before @ xs) ys"
  by (induction xs arbitrary: before) simp_all

lemma undeclared_from_append:
  "undeclared_from before (xs @ ys) = undeclared_from before xs @ undeclared_from (before @ xs) ys"
  by (induction xs arbitrary: before) simp_all

lemma env_of_declare_const: "env_of (declare_const n v t) = (env_of t)(n \<mapsto> v)"
  by (rule ext) (simp add: env_of_def declare_const_constants py_getitem_setitem)

lemma filter_undefined_declare_const:
  "filter is_undefined (errors (declare_const n v t)) = filter is_undefined (errors t)"
  by (simp add: declare_const_errors not_undefined_redefined)

lemma transform_statement_resolves:
  assumes run: "transform_statement s t = Inr (item, t')" and env: "env_of t = declared before"
  shows "tuples [item] = stmt_items (declared before) s
    \<and> filter is_undefined (errors t')
        = filter is_undefined (errors t)
          @ map undefined_msg
              (filter (\<lambda>name. name \<notin> set (decl_names before)) (references (stmt_value s)))
    \<and> env_of t' = declared (before @ [s])"
proof -
  have none: "(\<lambda>n. env_of t n = None) = (\<lambda>name. name \<notin> set (decl_names before))"
    unfolding env by (rule ext) (rule declared_None)
  show ?thesis
  proof (cases s)
    case (Declare_const n child)
    from transform_statement_DeclD [OF run [unfolded Declare_const]] obtain v t1
      where a: "transform_value child t = Inr (v, t1)" and i: "item = None"
        and b: "t' = declare_const n v t1"
      by blast
    from transform_keeps_constants(1) [OF a] have c: "env_of t1 = env_of t"
      by (rule env_of_cong)
    from transform_resolves(1) [OF a] show ?thesis
      unfolding Declare_const b i
      by (simp add: filter_undefined_declare_const env_of_declare_const c env declared_None declared_snoc)
  next
    case (Dict_item key child)
    from transform_statement_ItemD [OF run [unfolded Dict_item]] obtain v
      where a: "transform_value child t = Inr (v, t')" and i: "item = Some (key, v)"
      by blast
    from transform_keeps_constants(1) [OF a] have c: "env_of t' = env_of t"
      by (rule env_of_cong)
    from transform_resolves(1) [OF a] show ?thesis
      unfolding Dict_item i
      by (simp add: c env declared_None declared_snoc)
  qed
qed

lemma transform_statements_resolves:
  "transform_statements ss t = Inr (items, t') \<Longrightarrow> env_of t = declared before
    \<Longrightarrow> tuples items = items_from before ss
      \<and> filter is_undefined (errors t')
          = filter is_undefined (errors t) @ map undefined_msg (undeclared_from before ss)
      \<and> env_of t' = declared (before @ ss)"
proof (induction ss arbitrary: t items before)
  case Nil
  then show ?case by simp
next
  case (Cons s ss)
  from transform_statements_ConsD [OF Cons.prems(1)] obtain item t1 rest
    where s: "transform_statement s t = Inr (item, t1)"
      and r: "transform_statements ss t1 = Inr (rest, t')" and i: "items = item # rest"
    by blast
  note a = transform_statement_resolves [OF s Cons.prems(2)]
  from a have e: "env_of t1 = declared (before @ [s])"
    by blast
  note b = Cons.IH [OF r e]
  have t: "tuples items = tuples [item] @ tuples rest"
    unfolding i by (rule tuples_Cons)
  from a b show ?case
    unfolding t by simp
qed


lemma env_of_ConfigTransformer: "env_of ConfigTransformer = declared []"
  by (rule ext) (simp add: env_of_def ConfigTransformer_def declared_Nil)

lemma transform_program_resolves:
  assumes run: "transform_statements program ConfigTransformer = Inr (items, t)"
  shows "tuples items = items_from [] program"
    and "filter is_undefined (errors t) = map undefined_msg (undeclared_from [] program)"
    and "py_getitem name (constants t) = declared program name"
proof -
  note r = transform_statements_resolves [OF run env_of_ConfigTransformer]
  from r show "tuples items = items_from [] program"
    by blast
  from r have "filter is_undefined (errors t)
      = filter is_undefined (errors ConfigTransformer) @ map undefined_msg (undeclared_from [] program)"
    by blast
  then show "filter is_undefined (errors t) = map undefined_msg (undeclared_from [] program)"
    by (simp add: ConfigTransformer_def)
  from r have "env_of t = declared ([] @ program)"
    by blast
  then have "env_of t name = declared program name"
    by simp
  then show "py_getitem name (constants t) = declared program name"
    by (simp add: env_of_def)
qed

lemma undeclared_from_set:
  "(name \<in> set (undeclared_from before ss))
    = (\<exists>p s q. ss = p @ s # q \<and> name \<in> set (references (stmt_value s))
          \<and> name \<notin> set (decl_names (before @ p)))"
proof (induction ss arbitrary: before)
  case Nil
  show ?case by simp
next
  case (Cons s ss)
  show ?case
  proof
    assume "name \<in> set (undeclared_from before (s # ss))"
    then consider (here) "name \<in> set (references (stmt_value s))" "name \<notin> set (decl_names before)"
      | (later) "name \<in> set (undeclared_from (before @ [s]) ss)"
      by auto
    then show "\<exists>p s' q. s # ss = p @ s' # q \<and> name \<in> set (references (stmt_value s'))
        \<and> name \<notin> set (decl_names (before @ p))"
    proof cases
      case here
      then have "s # ss = [] @ s # ss \<and> name \<in> set (references (stmt_value s))
          \<and> name \<notin> set (decl_names (before @ []))"
        by simp
      then show ?thesis by blast
    next
      case later
      then obtain p s' q where a: "ss = p @ s' # q" and b: "name \<in> set (references (stmt_value s'))"
        and c: "name \<notin> set (decl_names ((before @ [s]) @ p))"
        unfolding Cons.IH by blast
      from a c have "s # ss = (s # p) @ s' # q \<and> name \<notin> set (decl_names (before @ (s # p)))"
        by simp
      with b show ?thesis by blast
    qed
  next
    assume "\<exists>p s' q. s # ss = p @ s' # q \<and> name \<in> set (references (stmt_value s'))
        \<and> name \<notin> set (decl_names (before @ p))"
    then obtain p s' q where a: "s # ss = p @ s' # q" and b: "name \<in> set (references (stmt_value s'))"
      and c: "name \<notin> set (decl_names (before @ p))"
      by blast
    show "name \<in> set (undeclared_from before (s # ss))"
    proof (cases p)
      case Nil
      with a b c show ?thesis by simp
    next
      case (Cons x p')
      with a have x: "x = s" and ss: "ss = p' @ s' # q"
        by simp_all
      from c have "name \<notin> set (decl_names ((before @ [s]) @ p'))"
        unfolding Cons x by simp
      with ss b have "name \<in> set (undeclared_from (before @ [s]) ss)"
        unfolding Cons.IH by blast
      then show ?thesis by simp
    qed
  qed
qed

lemma undefined_msg_inj: "undefined_msg a = undefined_msg b \<Longrightarrow> a = b"
  by (simp add: undefined_msg_def)

lemma undefined_reported:
  assumes "filter is_undefined errs = map undefined_msg names"
  shows "(undefined_msg name \<in> set errs) = (name \<in> set names)"
proof -
  have "(undefined_msg name \<in> set errs) = (undefined_msg name \<in> set (filter is_undefined errs))"
    by (simp add: is_undefined_undefined)
  also have "\<dots> = (undefined_msg name \<in> undefined_msg ` set names)"
    unfolding assms by simp
  also have "\<dots> = (name \<in> set names)"
    using undefined_msg_inj by blast
  finally show ?thesis .
qed


subsection \<open>Two declarations of one name\<close>

text \<open>
  C6. A program with exactly two constant declarations of the same name (all other
  declared names differ from it and from each other) gets exactly one redefinition
  message, the one for that name; after the pass the table of constants maps the name to
  the value the second declaration resolved to, which is the value of its expression in
  the environment of the statements in front of it. A reference after the second
  declaration gives that value in the output of the run: for every later statement \<open>s\<close>,
  the items the run hands to \<^verbatim>\<open>start\<close> are those of the statements before \<open>s\<close>, then the
  items of \<open>s\<close> resolved in an environment that maps the name to the second value, then
  those of the statements after it; in that environment a reference to the name, at the
  top of a value or inside a table, resolves to the second value, and \<open>s\<close> adds no
  \<^verbatim>\<open>Undefined constant\<close> message for the name.
\<close>

theorem redefinition_reported_once:
  assumes prog: "program = p1 @ Declare_const name e1 # p2 @ Declare_const name e2 # p3"
    and other: "name \<notin> set (decl_names (p1 @ p2 @ p3))"
    and dist: "distinct (decl_names (p1 @ p2 @ p3))"
    and run: "transform_statements program ConfigTransformer = Inr (items, t)"
  shows "filter is_redefinition (errors t) = [redefined_msg name]
    \<and> (\<exists>i ta v2 tb.
          transform_statements (p1 @ Declare_const name e1 # p2) ConfigTransformer = Inr (i, ta)
          \<and> transform_value e2 ta = Inr (v2, tb)
          \<and> py_getitem name (constants t) = Some v2
          \<and> transform_value (Use_const name) t = Inr (v2, t)
          \<and> v2 = resolve (declared (p1 @ Declare_const name e1 # p2)) e2
          \<and> transform program ConfigTransformer = Inr (dict_of_items (tuples items), t)
          \<and> (\<forall>q1 s q2.
                p3 = q1 @ s # q2 \<longrightarrow>
                  declared (p1 @ Declare_const name e1 # p2 @ Declare_const name e2 # q1) name
                    = Some v2
                  \<and> tuples items
                    = items_from [] (p1 @ Declare_const name e1 # p2 @ Declare_const name e2 # q1)
                      @ stmt_items
                          (declared (p1 @ Declare_const name e1 # p2 @ Declare_const name e2 # q1)) s
                      @ items_from
                          (p1 @ Declare_const name e1 # p2 @ Declare_const name e2 # q1 @ [s]) q2
                  \<and> resolve
                      (declared (p1 @ Declare_const name e1 # p2 @ Declare_const name e2 # q1))
                      (Use_const name) = v2
                  \<and> resolve
                      (declared (p1 @ Declare_const name e1 # p2 @ Declare_const name e2 # q1))
                      (Make_dict [(key, Use_const name)]) = PyDict [(key, v2)]
                  \<and> name \<notin> set (filter
                      (\<lambda>n. n \<notin> set (decl_names
                          (p1 @ Declare_const name e1 # p2 @ Declare_const name e2 # q1)))
                      (references (stmt_value s)))))"
proof
  have "filter is_redefinition (errors t)
      = filter is_redefinition (errors ConfigTransformer)
        @ map redefined_msg (redefinitions (set (map fst (constants ConfigTransformer))) program)"
    using transform_statements_redefinitions [OF run] by blast
  also have "\<dots> = map redefined_msg (redefinitions {} program)"
    by (simp add: ConfigTransformer_def)
  also have "\<dots> = [redefined_msg name]"
    unfolding prog by (simp only: redefinitions_two_declarations [OF other dist] list.map)
  finally show "filter is_redefinition (errors t) = [redefined_msg name]" .
next
  let ?first = "p1 @ Declare_const name e1 # p2"
  have split: "p1 @ Declare_const name e1 # p2 @ Declare_const name e2 # rest
      = ?first @ Declare_const name e2 # rest" for rest
    by simp
  from other have n3: "name \<notin> set (decl_names p3)"
    by (simp add: decl_names_append)
  from run have run': "transform_statements (?first @ Declare_const name e2 # p3) ConfigTransformer
      = Inr (items, t)"
    unfolding prog split .
  from transform_statements_appendD [OF run'] obtain i ta i2
    where a: "transform_statements ?first ConfigTransformer = Inr (i, ta)"
      and b: "transform_statements (Declare_const name e2 # p3) ta = Inr (i2, t)"
    by blast
  from transform_statements_ConsD [OF b] obtain item tc
    where "transform_statement (Declare_const name e2) ta = Inr (item, tc)"
    by blast
  from transform_statement_DeclD [OF this] obtain v2 tb
    where c: "transform_value e2 ta = Inr (v2, tb)"
    by blast
  have final: "py_getitem name (constants t) = Some v2"
    using latest_declaration_value [OF run' n3 a c] .
  from transform_statements_resolves [OF a env_of_ConfigTransformer]
  have "env_of ta = declared ?first"
    by simp
  with transform_resolves(1) [OF c] have second: "v2 = resolve (declared ?first) e2"
    by simp
  from run have whole: "transform program ConfigTransformer = Inr (dict_of_items (tuples items), t)"
    by (simp add: transform_def start_tuples)
  have later: "declared (p1 @ Declare_const name e1 # p2 @ Declare_const name e2 # q1) name = Some v2
      \<and> tuples items
        = items_from [] (p1 @ Declare_const name e1 # p2 @ Declare_const name e2 # q1)
          @ stmt_items (declared (p1 @ Declare_const name e1 # p2 @ Declare_const name e2 # q1)) s
          @ items_from (p1 @ Declare_const name e1 # p2 @ Declare_const name e2 # q1 @ [s]) q2
      \<and> resolve (declared (p1 @ Declare_const name e1 # p2 @ Declare_const name e2 # q1))
          (Use_const name) = v2
      \<and> resolve (declared (p1 @ Declare_const name e1 # p2 @ Declare_const name e2 # q1))
          (Make_dict [(key, Use_const name)]) = PyDict [(key, v2)]
      \<and> name \<notin> set (filter
          (\<lambda>n. n \<notin> set (decl_names (p1 @ Declare_const name e1 # p2 @ Declare_const name e2 # q1)))
          (references (stmt_value s)))"
    if q: "p3 = q1 @ s # q2" for q1 s q2
  proof -
    let ?prefix = "p1 @ Declare_const name e1 # p2 @ Declare_const name e2 # q1"
    from n3 q have n1: "name \<notin> set (decl_names q1)"
      by (simp add: decl_names_append)
    have 1: "declared ?prefix name = Some v2"
      using declared_latest [OF n1, of ?first e2] unfolding second by simp
    have p: "program = ?prefix @ s # q2"
      unfolding prog q by simp
    have "tuples items = items_from [] program"
      using transform_program_resolves(1) [OF run] .
    also have "\<dots> = items_from [] ?prefix @ items_from ([] @ ?prefix) (s # q2)"
      unfolding p by (rule items_from_append)
    finally have 2: "tuples items
        = items_from [] ?prefix @ stmt_items (declared ?prefix) s
          @ items_from (p1 @ Declare_const name e1 # p2 @ Declare_const name e2 # q1 @ [s]) q2"
      by simp
    from 1 have 3: "resolve (declared ?prefix) (Use_const name) = v2"
      by simp
    from 1 have 4: "resolve (declared ?prefix) (Make_dict [(key, Use_const name)]) = PyDict [(key, v2)]"
      by (simp add: dict_of_items_def)
    have 5: "name \<notin> set (filter (\<lambda>n. n \<notin> set (decl_names ?prefix)) (references (stmt_value s)))"
      by (simp add: decl_names_append)
    from 1 2 3 4 5 show ?thesis
      by (intro conjI)
  qed
  from a c final use_const_defined [OF final] second whole later
  show "\<exists>i ta v2 tb.
      transform_statements ?first ConfigTransformer = Inr (i, ta)
      \<and> transform_value e2 ta = Inr (v2, tb)
      \<and> py_getitem name (constants t) = Some v2
      \<and> transform_value (Use_const name) t = Inr (v2, t)
      \<and> v2 = resolve (declared ?first) e2
      \<and> transform program ConfigTransformer = Inr (dict_of_items (tuples items), t)
      \<and> (\<forall>q1 s q2.
            p3 = q1 @ s # q2 \<longrightarrow>
              declared (p1 @ Declare_const name e1 # p2 @ Declare_const name e2 # q1) name
                = Some v2
              \<and> tuples items
                = items_from [] (p1 @ Declare_const name e1 # p2 @ Declare_const name e2 # q1)
                  @ stmt_items
                      (declared (p1 @ Declare_const name e1 # p2 @ Declare_const name e2 # q1)) s
                  @ items_from
                      (p1 @ Declare_const name e1 # p2 @ Declare_const name e2 # q1 @ [s]) q2
              \<and> resolve
                  (declared (p1 @ Declare_const name e1 # p2 @ Declare_const name e2 # q1))
                  (Use_const name) = v2
              \<and> resolve
                  (declared (p1 @ Declare_const name e1 # p2 @ Declare_const name e2 # q1))
                  (Make_dict [(key, Use_const name)]) = PyDict [(key, v2)]
              \<and> name \<notin> set (filter
                  (\<lambda>n. n \<notin> set (decl_names
                      (p1 @ Declare_const name e1 # p2 @ Declare_const name e2 # q1)))
                  (references (stmt_value s))))"
    by blast
qed


theorem redefinition_reported_once_witness:
  "filter is_redefinition (errors \<lparr>constants = [(''a'', PyInt 2)], errors = [redefined_msg ''a'']\<rparr>)
     = [redefined_msg ''a'']
   \<and> py_getitem ''a'' (constants \<lparr>constants = [(''a'', PyInt 2)], errors = [redefined_msg ''a'']\<rparr>)
     = Some (PyInt 2)
   \<and> transform [Declare_const ''a'' (Number ''0b1''), Declare_const ''a'' (Number ''0b10''),
                 Dict_item ''x'' (Make_dict [(''k'', Use_const ''a'')])] ConfigTransformer
     = Inr ([(''x'', PyDict [(''k'', PyInt 2)])],
            \<lparr>constants = [(''a'', PyInt 2)], errors = [redefined_msg ''a'']\<rparr>)
   \<and> declared [Declare_const ''a'' (Number ''0b1''), Declare_const ''a'' (Number ''0b10'')] ''a''
     = Some (PyInt 2)
   \<and> stmt_items
        (declared [Declare_const ''a'' (Number ''0b1''), Declare_const ''a'' (Number ''0b10'')])
        (Dict_item ''x'' (Make_dict [(''k'', Use_const ''a'')]))
     = [(''x'', PyDict [(''k'', PyInt 2)])]"
proof -
  let ?d1 = "Declare_const ''a'' (Number ''0b1'')"
  let ?d2 = "Declare_const ''a'' (Number ''0b10'')"
  let ?x = "Dict_item ''x'' (Make_dict [(''k'', Use_const ''a'')])"
  let ?T = "\<lparr>constants = [(''a'', PyInt 2)], errors = [redefined_msg ''a'']\<rparr>"
  let ?items = "[None, None, Some (''x'', PyDict [(''k'', PyInt 2)])]"
  have prog: "[?d1, ?d2, ?x] = [] @ ?d1 # [] @ ?d2 # [?x]"
    by simp
  have other: "''a'' \<notin> set (decl_names ([] @ [] @ [?x]))"
    and dist: "distinct (decl_names ([] @ [] @ [?x]))"
    by simp_all
  have run: "transform_statements [?d1, ?d2, ?x] ConfigTransformer = Inr (?items, ?T)"
    by code_simp
  have table: "dict_of_items (tuples ?items) = [(''x'', PyDict [(''k'', PyInt 2)])]"
    by code_simp
  have split: "[?x] = [] @ ?x # []"
    by simp
  note inst = redefinition_reported_once [OF prog other dist run, of "''k''"]
  from inst have a: "filter is_redefinition (errors ?T) = [redefined_msg ''a'']"
    by (rule conjunct1)
  from inst [THEN conjunct2] obtain i ta v2 tb
    where g: "py_getitem ''a'' (constants ?T) = Some v2"
      and w: "transform [?d1, ?d2, ?x] ConfigTransformer = Inr (dict_of_items (tuples ?items), ?T)"
      and later: "\<forall>q1 s q2.
          [?x] = q1 @ s # q2 \<longrightarrow>
            declared ([] @ ?d1 # [] @ ?d2 # q1) ''a'' = Some v2
            \<and> tuples ?items
              = items_from [] ([] @ ?d1 # [] @ ?d2 # q1)
                @ stmt_items (declared ([] @ ?d1 # [] @ ?d2 # q1)) s
                @ items_from ([] @ ?d1 # [] @ ?d2 # q1 @ [s]) q2
            \<and> resolve (declared ([] @ ?d1 # [] @ ?d2 # q1)) (Use_const ''a'') = v2
            \<and> resolve (declared ([] @ ?d1 # [] @ ?d2 # q1)) (Make_dict [(''k'', Use_const ''a'')])
              = PyDict [(''k'', v2)]
            \<and> ''a'' \<notin> set (filter (\<lambda>n. n \<notin> set (decl_names ([] @ ?d1 # [] @ ?d2 # q1)))
                (references (stmt_value s)))"
    by blast
  from g have v: "v2 = PyInt 2"
    by simp
  from later [rule_format, OF split]
  have d: "declared ([] @ ?d1 # [] @ ?d2 # []) ''a'' = Some v2"
    and r: "resolve (declared ([] @ ?d1 # [] @ ?d2 # [])) (Make_dict [(''k'', Use_const ''a'')])
        = PyDict [(''k'', v2)]"
    by blast+
  from d have D: "declared [?d1, ?d2] ''a'' = Some (PyInt 2)"
    unfolding v by simp
  from r have R: "stmt_items (declared [?d1, ?d2]) ?x = [(''x'', PyDict [(''k'', PyInt 2)])]"
    unfolding v by simp
  from w have W: "transform [?d1, ?d2, ?x] ConfigTransformer
      = Inr ([(''x'', PyDict [(''k'', PyInt 2)])], ?T)"
    by (simp only: table)
  from a g W D R show ?thesis
    unfolding v by (intro conjI)
qed


section \<open>Binary literals\<close>

lemma base2_value_Nil: "base2_value [] = 0"
  by (simp add: base2_value_def)

lemma base2_value_Cons:
  "base2_value (c # cs) = (if c = CHR ''1'' then 1 else 0) * 2 ^ length cs + base2_value cs"
  unfolding base2_value_def length_Cons sum.lessThan_Suc_shift
  by simp

lemma base2_digits_value:
  "set ds \<subseteq> {CHR ''0'', CHR ''1''}
    \<Longrightarrow> base2_digits acc ds = Some (acc * 2 ^ length ds + base2_value ds)"
proof (induction ds arbitrary: acc)
  case Nil
  show ?case by (simp add: base2_value_Nil)
next
  case (Cons c cs)
  then have IH: "base2_digits a cs = Some (a * 2 ^ length cs + base2_value cs)" for a
    by simp
  from Cons.prems have "c = CHR ''0'' \<or> c = CHR ''1''" by simp
  then show ?case
  proof
    assume "c = CHR ''0''"
    then show ?thesis by (simp add: IH base2_value_Cons algebra_simps)
  next
    assume "c = CHR ''1''"
    then show ?thesis by (simp add: IH base2_value_Cons algebra_simps)
  qed
qed

lemma number_value:
  assumes "digits \<noteq> []" and "set digits \<subseteq> {CHR ''0'', CHR ''1''}"
    and "prefix = ''0b'' \<or> prefix = ''0B''"
  shows "number (prefix @ digits) = Inr (PyInt (base2_value digits))"
proof -
  have "py_int_base2 (prefix @ digits) = base2_digits 0 digits"
    using assms(1,3) by (auto simp: py_int_base2_def)
  then show ?thesis
    by (simp add: number_def base2_digits_value [OF assms(2)])
qed

lemma base2_value_power: "base2_value (CHR ''1'' # replicate n (CHR ''0'')) = 2 ^ n"
  by (induction n) (simp_all add: base2_value_Cons base2_value_Nil)


section \<open>Whole runs\<close>

text \<open>
  The bound on the recursion of the parser is never reached: every call consumes a token
  before it recurses, so \<open>parse\<close> and \<open>main\<close> always return a result.
\<close>

lemma parse_shorter:
  "parse_value n toks = Parsed v rest \<Longrightarrow> length rest < length toks"
  "parse_dict_entry n toks = Parsed e rest1 \<Longrightarrow> length rest1 < length toks"
  "parse_dict_entries n toks = Parsed es rest2 \<Longrightarrow> length rest2 \<le> length toks"
proof (induction n toks and n toks and n toks arbitrary: v rest and e rest1 and es rest2
    rule: parse_value_parse_dict_entry_parse_dict_entries.induct)
  case (1 toks)
  then show ?case by simp
next
  case (2 n toks)
  from "2.prems" show ?case
    by (auto split: list.splits token.splits parse.splits if_splits dest!: "2.IH")
next
  case (3 toks)
  then show ?case by simp
next
  case (4 n toks)
  from "4.prems" show ?case
    by (auto split: list.splits token.splits parse.splits if_splits dest!: "4.IH")
next
  case (5 toks)
  then show ?case by simp
next
  case (6 n toks)
  show ?case
  proof (cases "\<exists>key rest. toks = IDENT key # rest")
    case True
    then obtain key rest where t: "toks = IDENT key # rest"
      by blast
    from "6.prems" t obtain entry r1 entries
      where a: "parse_dict_entry n toks = Parsed entry r1"
        and b: "parse_dict_entries n r1 = Parsed entries rest2"
      by (auto split: parse.splits)
    from "6.IH"(1) [OF t refl a] "6.IH"(2) [OF t refl a b] show ?thesis
      by simp
  next
    case False
    with "6.prems" have "rest2 = toks"
      by (auto split: list.splits token.splits)
    then show ?thesis by simp
  qed
qed

lemma parse_enough_fuel:
  "2 * length toks + 1 \<le> n \<Longrightarrow> parse_value n toks \<noteq> Out_of_fuel"
  "2 * length toks + 1 \<le> n \<Longrightarrow> parse_dict_entry n toks \<noteq> Out_of_fuel"
  "2 * length toks + 2 \<le> n \<Longrightarrow> parse_dict_entries n toks \<noteq> Out_of_fuel"
proof (induction n toks and n toks and n toks
    rule: parse_value_parse_dict_entry_parse_dict_entries.induct)
  case (1 toks)
  then show ?case by simp
next
  case (2 n toks)
  from "2.prems" show ?case
    by (auto split: list.splits token.splits parse.splits if_splits dest!: "2.IH")
next
  case (3 toks)
  then show ?case by simp
next
  case (4 n toks)
  from "4.prems" show ?case
    by (auto split: list.splits token.splits parse.splits if_splits dest!: "4.IH")
next
  case (5 toks)
  then show ?case by simp
next
  case (6 n toks)
  show ?case
  proof (cases "\<exists>key rest. toks = IDENT key # rest")
    case True
    then obtain key rest where t: "toks = IDENT key # rest"
      by blast
    from "6.prems" have f: "2 * length toks + 1 \<le> n"
      by simp
    show ?thesis
    proof (cases "parse_dict_entry n toks")
      case Out_of_fuel
      with "6.IH"(1) [OF t refl f] show ?thesis by simp
    next
      case Unexpected_input
      with t show ?thesis by simp
    next
      case (Parsed entry r1)
      from parse_shorter(2) [OF Parsed] "6.prems" have "2 * length r1 + 2 \<le> n"
        by simp
      from "6.IH"(2) [OF t refl Parsed this] Parsed t show ?thesis
        by (auto split: parse.splits)
    qed
  next
    case False
    then show ?thesis
      by (auto split: list.splits token.splits)
  qed
qed

lemma parse_statement_decl:
  "parse_statement n (IDENT name # COLON # rest) =
     (case parse_value n rest of
        Out_of_fuel \<Rightarrow> Out_of_fuel
      | Unexpected_input \<Rightarrow> Unexpected_input
      | Parsed v (SEMICOLON # rest') \<Rightarrow> Parsed (Declare_const name v) rest'
      | Parsed v _ \<Rightarrow> Unexpected_input)"
  by (simp add: parse_statement_def)

lemma parse_statement_entry:
  "\<not> (\<exists>name rest. toks = IDENT name # COLON # rest) \<Longrightarrow>
   parse_statement n toks =
     (case parse_dict_entry n toks of
        Out_of_fuel \<Rightarrow> Out_of_fuel
      | Unexpected_input \<Rightarrow> Unexpected_input
      | Parsed (key, v) rest \<Rightarrow> Parsed (Dict_item key v) rest)"
  unfolding parse_statement_def
  by (simp split: list.splits token.splits)

lemma parse_statement_enough_fuel:
  assumes "2 * length toks + 1 \<le> n"
  shows "parse_statement n toks \<noteq> Out_of_fuel"
proof (cases "\<exists>name rest. toks = IDENT name # COLON # rest")
  case True
  then obtain name rest where t: "toks = IDENT name # COLON # rest"
    by blast
  with assms have "2 * length rest + 1 \<le> n"
    by simp
  from parse_enough_fuel(1) [OF this] show ?thesis
    unfolding t parse_statement_decl
    by (simp split: parse.splits list.splits token.splits)
next
  case False
  from parse_enough_fuel(2) [OF assms] show ?thesis
    unfolding parse_statement_entry [OF False]
    by (simp split: parse.splits prod.splits)
qed

lemma parse_statement_shorter:
  assumes "parse_statement n toks = Parsed s rest"
  shows "length rest < length toks"
proof (cases "\<exists>name rest. toks = IDENT name # COLON # rest")
  case True
  then obtain name r0 where t: "toks = IDENT name # COLON # r0"
    by blast
  from assms obtain v r1 where p: "parse_value n r0 = Parsed v r1" and r: "r1 = SEMICOLON # rest"
    unfolding t parse_statement_decl
    by (auto split: parse.splits list.splits token.splits)
  from parse_shorter(1) [OF p] r show ?thesis
    unfolding t by simp
next
  case False
  from assms obtain e where "parse_dict_entry n toks = Parsed e rest"
    unfolding parse_statement_entry [OF False]
    by (auto split: parse.splits prod.splits)
  then show ?thesis
    by (rule parse_shorter(2))
qed

lemma parse_start_enough_fuel:
  "2 * length toks + 2 \<le> n \<Longrightarrow> parse_start n toks \<noteq> Out_of_fuel"
proof (induction n toks rule: parse_start.induct)
  case (1 n)
  show ?case by simp
next
  case (2 v va)
  then show ?case by simp
next
  case (3 n v va)
  let ?toks = "v # va"
  from "3.prems" have f: "2 * length ?toks + 1 \<le> n"
    by simp
  show ?case
  proof (cases "parse_statement n ?toks")
    case Out_of_fuel
    with parse_statement_enough_fuel [OF f] show ?thesis by simp
  next
    case Unexpected_input
    then show ?thesis by simp
  next
    case (Parsed s rest)
    from parse_statement_shorter [OF Parsed] "3.prems" have "2 * length rest + 2 \<le> n"
      by simp
    from "3.IH" [OF Parsed this] Parsed show ?thesis
      by (auto split: parse.splits)
  qed
qed

lemma parse_returns: "\<exists>r. parse text = Some r"
proof (cases "lex text")
  case None
  then show ?thesis by (simp add: parse_def)
next
  case (Some toks)
  have "parse_start (2 * length toks + 2) toks \<noteq> Out_of_fuel"
    by (rule parse_start_enough_fuel) simp
  with Some show ?thesis
    by (auto simp: parse_def split: parse.splits)
qed

lemma main_returns: "\<exists>out. main text = Some out"
proof -
  from parse_returns obtain r where r: "parse text = Some r"
    by blast
  show ?thesis
  proof (cases r)
    case (Inl e)
    with r show ?thesis by (simp add: main_def)
  next
    case (Inr program)
    show ?thesis
    proof (cases "transform program ConfigTransformer")
      case (Inl e)
      with r \<open>r = Inr program\<close> show ?thesis by (simp add: main_def)
    next
      case (Inr x)
      obtain result t where x: "x = (result, t)" by (cases x)
      show ?thesis
      proof (cases "to_toml result 0")
        case (Inl e)
        with r \<open>r = Inr program\<close> Inr x show ?thesis by (simp add: main_def)
      next
        case (Inr toml)
        with r \<open>r = Inr program\<close> \<open>transform program ConfigTransformer = Inr x\<close> x
        show ?thesis by (simp add: main_def)
      qed
    qed
  qed
qed


subsection \<open>The literals of a parsed program\<close>

text \<open>
  Every \<^verbatim>\<open>BIN_NUMBER\<close> token has the shape of a binary literal, the parser copies the
  tokens into the tree, and \<^verbatim>\<open>int(text, 2)\<close> accepts every such literal: the transformer
  never raises on a program the parser returned.
\<close>

lemma is_bin_literalD:
  "is_bin_literal token
    \<Longrightarrow> \<exists>prefix digits. token = prefix @ digits \<and> (prefix = ''0b'' \<or> prefix = ''0B'')
          \<and> digits \<noteq> [] \<and> set digits \<subseteq> {CHR ''0'', CHR ''1''}"
proof (cases token rule: is_bin_literal.cases)
  case (1 z b d digits)
  assume "is_bin_literal token"
  with 1 have z: "z = CHR ''0''" and b: "b = CHR ''b'' \<or> b = CHR ''B''"
    and d: "set (d # digits) \<subseteq> {CHR ''0'', CHR ''1''}"
    by (auto simp: list_all_iff is_bin_def)
  have "token = [z, b] @ (d # digits)"
    unfolding 1 by simp
  moreover from z b have "[z, b] = ''0b'' \<or> [z, b] = ''0B''"
    by simp
  moreover have "d # digits \<noteq> []"
    by simp
  ultimately show ?thesis
    using d by blast
qed simp_all

lemma is_bin_literal_number: "is_bin_literal token \<Longrightarrow> \<exists>i. number token = Inr (PyInt i)"
proof -
  assume "is_bin_literal token"
  from is_bin_literalD [OF this] obtain prefix digits
    where t: "token = prefix @ digits" and p: "prefix = ''0b'' \<or> prefix = ''0B''"
      and d: "digits \<noteq> []" "set digits \<subseteq> {CHR ''0'', CHR ''1''}"
    by blast
  from number_value [OF d p] show ?thesis
    unfolding t by blast
qed

lemma takeWhile_is_bin: "list_all is_bin (takeWhile is_bin cs)"
  unfolding list_all_iff using set_takeWhileD by fast

lemma scan_literal:
  assumes "scan c cs = Some (Some (BIN_NUMBER s), rest)"
  shows "is_bin_literal s"
proof -
  from assms have c: "c = CHR ''0''" and b: "take 1 cs = ''b'' \<or> take 1 cs = ''B''"
    and d: "takeWhile is_bin (drop 1 cs) \<noteq> []"
    and s: "s = c # take 1 cs @ takeWhile is_bin (drop 1 cs)"
    by (auto simp: scan_def split: if_splits)
  from b obtain x where x: "take 1 cs = [x]" and xb: "x = CHR ''b'' \<or> x = CHR ''B''"
    by auto
  from d obtain y ys where y: "takeWhile is_bin (drop 1 cs) = y # ys"
    by (cases "takeWhile is_bin (drop 1 cs)") simp_all
  from takeWhile_is_bin [of "drop 1 cs"] have "list_all is_bin (y # ys)"
    unfolding y .
  with c xb show ?thesis
    unfolding s x y by simp
qed

lemma valid_tokens_Nil: "valid_tokens []"
  by (simp add: valid_tokens_def)

lemma valid_tokens_Cons:
  "valid_tokens (tok # toks)
    = ((case tok of BIN_NUMBER s \<Rightarrow> is_bin_literal s | _ \<Rightarrow> True) \<and> valid_tokens toks)"
  by (simp add: valid_tokens_def)

lemma valid_tokens_subset: "valid_tokens toks \<Longrightarrow> set rest \<subseteq> set toks \<Longrightarrow> valid_tokens rest"
  unfolding valid_tokens_def by blast

lemma lex_valid_tokens: "lex input = Some toks \<Longrightarrow> valid_tokens toks"
proof (induction input arbitrary: toks rule: lex.induct)
  case 1
  then show ?case by (simp add: lex.simps valid_tokens_Nil)
next
  case (2 c cs)
  show ?case
  proof (cases "scan c cs")
    case None
    with "2.prems" show ?thesis by (simp add: lex.simps)
  next
    case (Some x)
    obtain tok rest where x: "x = (tok, rest)" by (cases x)
    show ?thesis
    proof (cases tok)
      case None
      with "2.prems" Some x have "lex rest = Some toks"
        by (simp add: lex.simps)
      from "2.IH"(1) [OF Some x [symmetric] None this] show ?thesis .
    next
      case (Some t)
      with "2.prems" \<open>scan c cs = Some x\<close> x obtain toks'
        where l: "lex rest = Some toks'" and t: "toks = t # toks'"
        by (auto simp: lex.simps)
      from "2.IH"(2) [OF \<open>scan c cs = Some x\<close> x [symmetric] Some l]
      have v: "valid_tokens toks'" .
      have "is_bin_literal s" if "t = BIN_NUMBER s" for s
        using scan_literal [of c cs s rest] \<open>scan c cs = Some x\<close> x Some that by simp
      then have "case t of BIN_NUMBER s \<Rightarrow> is_bin_literal s | _ \<Rightarrow> True"
        by (cases t) simp_all
      with v show ?thesis
        unfolding t valid_tokens_Cons by simp
    qed
  qed
qed

lemma valid_tokens_literal: "valid_tokens toks \<Longrightarrow> BIN_NUMBER s \<in> set toks \<Longrightarrow> is_bin_literal s"
  unfolding valid_tokens_def by fastforce

lemma parse_valid:
  "parse_value n toks = Parsed v rest \<Longrightarrow> valid_tokens toks
    \<Longrightarrow> valid_tree v \<and> set rest \<subseteq> set toks"
  "parse_dict_entry n toks = Parsed e rest1 \<Longrightarrow> valid_tokens toks
    \<Longrightarrow> valid_tree (snd e) \<and> set rest1 \<subseteq> set toks"
  "parse_dict_entries n toks = Parsed es rest2 \<Longrightarrow> valid_tokens toks
    \<Longrightarrow> (\<forall>(k, e) \<in> set es. valid_tree e) \<and> set rest2 \<subseteq> set toks"
proof (induction n toks and n toks and n toks arbitrary: v rest and e rest1 and es rest2
    rule: parse_value_parse_dict_entry_parse_dict_entries.induct)
  case (1 toks)
  then show ?case by simp
next
  case (2 n toks)
  show ?case
  proof (cases "\<exists>w r. toks = IDENT w # LPAR # LSQB # r")
    case True
    then obtain w r where t: "toks = IDENT w # LPAR # LSQB # r"
      by blast
    from "2.prems"(1) obtain entries
      where w: "w = ''table''" and p: "parse_dict_entries n r = Parsed entries (RSQB # RPAR # rest)"
        and v: "v = Make_dict entries"
      unfolding t by (auto split: if_splits parse.splits list.splits token.splits)
    from "2.prems"(2) have "valid_tokens r"
      unfolding t by (rule valid_tokens_subset) auto
    from "2.IH" [OF t refl refl refl refl refl w p this]
    show ?thesis
      unfolding t v by auto
  next
    case False
    with "2.prems" show ?thesis
      by (auto split: list.splits token.splits dest: valid_tokens_literal)
  qed
next
  case (3 toks)
  then show ?case by simp
next
  case (4 n toks)
  show ?case
  proof (cases "\<exists>k r. toks = IDENT k # EQUAL # r")
    case True
    then obtain k r where t: "toks = IDENT k # EQUAL # r"
      by blast
    from "4.prems"(1) obtain w r1
      where p: "parse_value n r = Parsed w r1" and e: "e = (k, w)"
        and r: "rest1 = r1 \<or> r1 = COMMA # rest1"
      unfolding t by (auto split: parse.splits list.splits token.splits)
    from "4.prems"(2) have "valid_tokens r"
      unfolding t by (rule valid_tokens_subset) auto
    from "4.IH" [OF t refl refl refl p this] r
    show ?thesis
      unfolding t e by auto
  next
    case False
    with "4.prems" show ?thesis
      by (auto split: list.splits token.splits)
  qed
next
  case (5 toks)
  then show ?case by simp
next
  case (6 n toks)
  show ?case
  proof (cases "\<exists>key r. toks = IDENT key # r")
    case True
    then obtain key r where t: "toks = IDENT key # r"
      by blast
    from "6.prems"(1) t obtain entry r1 entries
      where a: "parse_dict_entry n toks = Parsed entry r1"
        and b: "parse_dict_entries n r1 = Parsed entries rest2"
        and es: "es = entry # entries"
      by (auto split: parse.splits)
    from "6.IH"(1) [OF t refl a "6.prems"(2)]
    have 1: "valid_tree (snd entry)" and 2: "set r1 \<subseteq> set toks"
      by simp_all
    from "6.prems"(2) 2 have "valid_tokens r1"
      by (rule valid_tokens_subset)
    from "6.IH"(2) [OF t refl a b this] 1 2 show ?thesis
      unfolding es by (cases entry) auto
  next
    case False
    with "6.prems"(1) have "rest2 = toks \<and> es = []"
      by (auto split: list.splits token.splits)
    then show ?thesis by simp
  qed
qed

lemma parse_statement_valid:
  assumes p: "parse_statement n toks = Parsed s rest" and v: "valid_tokens toks"
  shows "valid_tree (stmt_value s) \<and> set rest \<subseteq> set toks"
proof (cases "\<exists>name r. toks = IDENT name # COLON # r")
  case True
  then obtain name r where t: "toks = IDENT name # COLON # r"
    by blast
  from p obtain w where a: "parse_value n r = Parsed w (SEMICOLON # rest)"
    and s: "s = Declare_const name w"
    unfolding t parse_statement_def by (auto split: parse.splits list.splits token.splits)
  from v have "valid_tokens r"
    unfolding t by (rule valid_tokens_subset) auto
  from parse_valid(1) [OF a this] show ?thesis
    unfolding s t by auto
next
  case False
  with p obtain key w where a: "parse_dict_entry n toks = Parsed (key, w) rest"
    and s: "s = Dict_item key w"
    unfolding parse_statement_def by (auto split: parse.splits list.splits token.splits prod.splits)
  from parse_valid(2) [OF a v] show ?thesis
    unfolding s by simp
qed

lemma parse_start_valid:
  "parse_start n toks = Parsed ss rest \<Longrightarrow> valid_tokens toks \<Longrightarrow> valid_program ss"
proof (induction n toks arbitrary: ss rest rule: parse_start.induct)
  case (1 n)
  then show ?case by (simp add: valid_program_def)
next
  case (2 tok toks)
  then show ?case by simp
next
  case (3 n tok toks)
  from "3.prems"(1) obtain s r1 ss1
    where a: "parse_statement n (tok # toks) = Parsed s r1"
      and b: "parse_start n r1 = Parsed ss1 rest" and ss: "ss = s # ss1"
    by (auto split: parse.splits)
  from parse_statement_valid [OF a "3.prems"(2)]
  have 1: "valid_tree (stmt_value s)" and 2: "set r1 \<subseteq> set (tok # toks)"
    by simp_all
  from "3.prems"(2) 2 have "valid_tokens r1"
    by (rule valid_tokens_subset)
  from "3.IH" [OF a b this] 1 show ?case
    unfolding ss by (simp add: valid_program_def)
qed

lemma parse_valid_program: "parse input = Some (Inr program) \<Longrightarrow> valid_program program"
proof -
  assume p: "parse input = Some (Inr program)"
  then obtain toks rest where l: "lex input = Some toks"
    and s: "parse_start (2 * length toks + 2) toks = Parsed program rest"
    by (auto simp: parse_def split: option.splits parse.splits)
  from parse_start_valid [OF s lex_valid_tokens [OF l]] show ?thesis .
qed

lemma valid_tree_transforms:
  "valid_tree e \<Longrightarrow> \<exists>v t'. transform_value e t = Inr (v, t')"
  "\<forall>(key, child) \<in> set es. valid_tree child \<Longrightarrow> \<exists>items t''. transform_items es t = Inr (items, t'')"
proof (induction e t and es t rule: transform_value_transform_items.induct)
  case (1 token t)
  then have "is_bin_literal token" by simp
  from is_bin_literal_number [OF this] obtain i where "number token = Inr (PyInt i)"
    by blast
  then show ?case by simp
next
  case (2 name t)
  show ?case
    by (cases "use_const name t") simp
next
  case (3 entries t)
  from "3.prems" have "\<forall>(key, child) \<in> set entries. valid_tree child"
    by simp
  from "3.IH" [OF this] obtain items t'' where a: "transform_items entries t = Inr (items, t'')"
    by blast
  from a show ?case
    by (cases "make_dict items t''") simp
next
  case (4 t)
  show ?case by simp
next
  case (5 key child entries t)
  from "5.prems" have c: "valid_tree child" and r: "\<forall>(key, child) \<in> set entries. valid_tree child"
    by simp_all
  from "5.IH"(1) [OF c] obtain v t1 where a: "transform_value child t = Inr (v, t1)"
    by blast
  from "5.IH"(2) [OF a refl r] obtain items t2
    where b: "transform_items entries t1 = Inr (items, t2)"
    by blast
  from a b show ?case
    by simp
qed

lemma valid_statement_transforms:
  "valid_tree (stmt_value s) \<Longrightarrow> \<exists>item t'. transform_statement s t = Inr (item, t')"
proof -
  assume v: "valid_tree (stmt_value s)"
  show ?thesis
  proof (cases s)
    case (Declare_const name child)
    with v have "valid_tree child" by simp
    from valid_tree_transforms(1) [OF this] obtain w t1 where "transform_value child t = Inr (w, t1)"
      by blast
    then show ?thesis
      unfolding Declare_const by simp
  next
    case (Dict_item key child)
    with v have "valid_tree child" by simp
    from valid_tree_transforms(1) [OF this] obtain w t1 where "transform_value child t = Inr (w, t1)"
      by blast
    then show ?thesis
      unfolding Dict_item by simp
  qed
qed

lemma valid_statements_transform:
  "valid_program ss \<Longrightarrow> \<exists>items t'. transform_statements ss t = Inr (items, t')"
proof (induction ss arbitrary: t)
  case Nil
  show ?case by simp
next
  case (Cons s ss)
  from Cons.prems have v: "valid_tree (stmt_value s)" and r: "valid_program ss"
    by (simp_all add: valid_program_def)
  from valid_statement_transforms [OF v] obtain item t1
    where a: "transform_statement s t = Inr (item, t1)"
    by blast
  from Cons.IH [OF r] obtain items t2 where b: "transform_statements ss t1 = Inr (items, t2)"
    by blast
  from a b show ?case
    by simp
qed

lemma valid_program_transforms:
  "valid_program program \<Longrightarrow> \<exists>result t. transform program ConfigTransformer = Inr (result, t)"
proof -
  assume "valid_program program"
  from valid_statements_transform [OF this] obtain items t
    where "transform_statements program ConfigTransformer = Inr (items, t)"
    by blast
  then show ?thesis
    by (simp add: transform_def)
qed


subsection \<open>Runs of the whole program\<close>

text \<open>
  C10. An entry whose value is the empty table (\<^verbatim>\<open>table([])\<close> is grammatical) gives the
  header \<^verbatim>\<open>[key]\<close> and then an empty line: the recursive call returns the empty string,
  which is appended to the lines and joined like any other, so the entry renders as the
  header and a line feed, not as the header alone.
\<close>

theorem empty_table_renders_header_and_empty_line:
  "to_toml_loop ((key, PyDict []) # rest) indent lines
     = to_toml_loop rest indent (lines @ [pad indent @ ''['' @ key @ '']'', []])
   \<and> entry_lines indent (key, PyDict []) = [pad indent @ ''['' @ key @ '']'', []]
   \<and> to_toml [(key, PyDict [])] indent = Inr (pad indent @ ''['' @ key @ '']'' @ [newline])
   \<and> to_toml [(key, PyDict [])] indent \<noteq> Inr (pad indent @ ''['' @ key @ '']'')
   \<and> parse ''x = table([])'' = Some (Inr [Dict_item ''x'' (Make_dict [])])
   \<and> transform_value (Make_dict []) t = Inr (PyDict [], t)
   \<and> main ''x = table([])''
       = Some \<lparr>stdout = ''[x]'' @ [newline] @ [newline], stderr = [], exit_code = 0\<rparr>"
proof (intro conjI)
  show "to_toml_loop ((key, PyDict []) # rest) indent lines
      = to_toml_loop rest indent (lines @ [pad indent @ ''['' @ key @ '']'', []])"
    by simp
  show "entry_lines indent (key, PyDict []) = [pad indent @ ''['' @ key @ '']'', []]"
    by (simp add: toml_text_def)
  show "to_toml [(key, PyDict [])] indent = Inr (pad indent @ ''['' @ key @ '']'' @ [newline])"
    by (simp add: to_toml_def)
  show "to_toml [(key, PyDict [])] indent \<noteq> Inr (pad indent @ ''['' @ key @ '']'')"
    by (simp add: to_toml_def)
  show "parse ''x = table([])'' = Some (Inr [Dict_item ''x'' (Make_dict [])])"
    by code_simp
  show "transform_value (Make_dict []) t = Inr (PyDict [], t)"
    by (simp add: make_dict_def)
  show "main ''x = table([])''
      = Some \<lparr>stdout = ''[x]'' @ [newline] @ [newline], stderr = [], exit_code = 0\<rparr>"
    by code_simp
qed

lemma lex_binary_literal:
  assumes "digits \<noteq> []" and "set digits \<subseteq> {CHR ''0'', CHR ''1''}"
    and "b = CHR ''b'' \<or> b = CHR ''B''"
  shows "lex (CHR ''0'' # b # digits) = Some [BIN_NUMBER (CHR ''0'' # b # digits)]"
proof -
  from assms(2) have "\<forall>c \<in> set digits. is_bin c"
    by (auto simp: is_bin_def)
  then have tw: "takeWhile is_bin digits = digits" and dw: "dropWhile is_bin digits = []"
    by simp_all
  have ws: "\<not> is_ws (CHR ''0'')" and lo: "\<not> is_lower (CHR ''0'')"
    by (simp_all add: is_ws_def is_lower_def)
  have t1: "take 1 (b # digits) = [b]" and d1: "drop 1 (b # digits) = digits"
    by simp_all
  have cm: "take 4 (CHR ''0'' # b # digits) \<noteq> ''--[[''"
    by (simp add: take_Cons')
  have bb: "[b] = ''b'' \<or> [b] = ''B''"
    using assms(3) by simp
  have "scan (CHR ''0'') (b # digits) = Some (Some (BIN_NUMBER (CHR ''0'' # b # digits)), [])"
    unfolding scan_def t1 d1 tw dw
    using ws lo cm bb assms(1) by simp
  then show ?thesis
    by (simp add: lex.simps)
qed

text \<open>
  C5. A binary literal, \<^verbatim>\<open>0b\<close> or \<^verbatim>\<open>0B\<close> followed by one or more digits \<^verbatim>\<open>0\<close>/\<^verbatim>\<open>1\<close>, is one
  \<^verbatim>\<open>BIN_NUMBER\<close> token, and the transformer turns it into the integer that is exactly the
  base-2 value of the digits; the integer is unbounded, so a literal of any length keeps
  its value (the literal \<^verbatim>\<open>1\<close> followed by 64 zeros is \<open>2 ^ 64\<close>).
\<close>

theorem binary_literal_value:
  assumes "digits \<noteq> []" and "set digits \<subseteq> {CHR ''0'', CHR ''1''}"
    and "prefix = ''0b'' \<or> prefix = ''0B''"
  shows "lex (prefix @ digits) = Some [BIN_NUMBER (prefix @ digits)]
    \<and> number (prefix @ digits) = Inr (PyInt (base2_value digits))
    \<and> transform_value (Number (prefix @ digits)) t = Inr (PyInt (base2_value digits), t)
    \<and> base2_value (CHR ''1'' # replicate 64 (CHR ''0'')) = 2 ^ 64"
proof (intro conjI)
  from assms(3) obtain b where p: "prefix = [CHR ''0'', b]" and b: "b = CHR ''b'' \<or> b = CHR ''B''"
    by blast
  from lex_binary_literal [OF assms(1,2) b]
  show "lex (prefix @ digits) = Some [BIN_NUMBER (prefix @ digits)]"
    unfolding p by simp
  show n: "number (prefix @ digits) = Inr (PyInt (base2_value digits))"
    using assms by (rule number_value)
  show "transform_value (Number (prefix @ digits)) t = Inr (PyInt (base2_value digits), t)"
    unfolding transform_value.simps n by simp
  show "base2_value (CHR ''1'' # replicate 64 (CHR ''0'')) = 2 ^ 64"
    by (rule base2_value_power)
qed

theorem binary_literal_value_witness:
  "lex ''0b101'' = Some [BIN_NUMBER ''0b101'']
   \<and> transform_value (Number ''0b101'') ConfigTransformer = Inr (PyInt 5, ConfigTransformer)"
proof -
  have v: "base2_value ''101'' = 5"
    by (simp add: base2_value_Cons base2_value_Nil)
  have "''101'' \<noteq> []" and "set ''101'' \<subseteq> {CHR ''0'', CHR ''1''}"
    and "''0b'' = ''0b'' \<or> ''0b'' = ''0B''"
    by simp_all
  from binary_literal_value [OF this, of ConfigTransformer] v show ?thesis
    by simp
qed

text \<open>
  C3, as stated, fails: in the grammar an \<^verbatim>\<open>=\<close> entry ends with an optional comma
  (\<^verbatim>\<open>dict_entry: IDENT "=" value ","?\<close>) and only a constant declaration ends with a
  semicolon, so the text of the claim, which puts a semicolon after each \<^verbatim>\<open>=\<close> entry, is a
  syntax error and no TOML is printed.
\<close>

theorem semicolon_example_counterexample:
  "main ''a: 0b11; port = 0b1000; db = table([ host = 0b1; ]) ;''
     \<noteq> Some \<lparr>stdout = ''port = 8'' @ [newline] @ ''[db]'' @ [newline] @ ''  host = 1'' @ [newline],
              stderr = [], exit_code = 0\<rparr>"
proof -
  have "main ''a: 0b11; port = 0b1000; db = table([ host = 0b1; ]) ;''
      = Some \<lparr>stdout = [], stderr = [Syntax_error], exit_code = 1\<rparr>"
    by code_simp
  then show ?thesis by simp
qed

text \<open>
  C3, amended. With a comma in place of each semicolon that follows an \<^verbatim>\<open>=\<close> entry, the
  text is accepted without syntax error or diagnostic, and standard output holds exactly
  the three lines \<^verbatim>\<open>port = 8\<close>, \<^verbatim>\<open>[db]\<close> and \<^verbatim>\<open>  host = 1\<close>, with exit code 0; the text with
  the semicolons is reported as a syntax error, with exit code 1 and nothing on standard
  output.
\<close>

theorem comma_example_accepted:
  "main ''a: 0b11; port = 0b1000, db = table([ host = 0b1, ]) ,''
     = Some \<lparr>stdout = ''port = 8'' @ [newline] @ ''[db]'' @ [newline] @ ''  host = 1'' @ [newline],
              stderr = [], exit_code = 0\<rparr>
   \<and> parse ''a: 0b11; port = 0b1000, db = table([ host = 0b1, ]) ,''
     = Some (Inr [Declare_const ''a'' (Number ''0b11''), Dict_item ''port'' (Number ''0b1000''),
                  Dict_item ''db'' (Make_dict [(''host'', Number ''0b1'')])])
   \<and> main ''a: 0b11; port = 0b1000; db = table([ host = 0b1; ]) ;''
     = Some \<lparr>stdout = [], stderr = [Syntax_error], exit_code = 1\<rparr>"
proof (intro conjI)
  show "main ''a: 0b11; port = 0b1000, db = table([ host = 0b1, ]) ,''
      = Some \<lparr>stdout = ''port = 8'' @ [newline] @ ''[db]'' @ [newline] @ ''  host = 1'' @ [newline],
               stderr = [], exit_code = 0\<rparr>"
    by code_simp
  show "parse ''a: 0b11; port = 0b1000, db = table([ host = 0b1, ]) ,''
      = Some (Inr [Declare_const ''a'' (Number ''0b11''), Dict_item ''port'' (Number ''0b1000''),
                   Dict_item ''db'' (Make_dict [(''host'', Number ''0b1'')])])"
    by code_simp
  show "main ''a: 0b11; port = 0b1000; db = table([ host = 0b1; ]) ;''
      = Some \<lparr>stdout = [], stderr = [Syntax_error], exit_code = 1\<rparr>"
    by code_simp
qed

text \<open>
  C4, as stated, fails for the same reason: the semicolon after the \<^verbatim>\<open>=\<close> entry makes the
  text a syntax error, so the parser stops the run before the transformer can report the
  undefined constant, and standard error holds the \<^verbatim>\<open>Syntax error:\<close> report instead.
\<close>

theorem missing_constant_example_counterexample:
  "main ''x = .(missing).;''
     \<noteq> Some \<lparr>stdout = [], stderr = [Error (undefined_msg ''missing'')], exit_code = 1\<rparr>"
proof -
  have "main ''x = .(missing).;'' = Some \<lparr>stdout = [], stderr = [Syntax_error], exit_code = 1\<rparr>"
    by code_simp
  then show ?thesis by simp
qed

text \<open>
  C4, amended. Without the semicolon the run ends with exit code 1, writes exactly the line
  \<^verbatim>\<open>Error: Undefined constant 'missing'\<close> to standard error and nothing to standard output;
  with the semicolon it also ends with exit code 1 and writes nothing to standard output,
  but what standard error holds is the syntax error report.
\<close>

theorem missing_constant_reported:
  "main ''x = .(missing).''
     = Some \<lparr>stdout = [],
              stderr = [Error (''Undefined constant '' @ [apostrophe] @ ''missing'' @ [apostrophe])],
              exit_code = 1\<rparr>
   \<and> main ''x = .(missing).;'' = Some \<lparr>stdout = [], stderr = [Syntax_error], exit_code = 1\<rparr>"
proof (intro conjI)
  show "main ''x = .(missing).''
      = Some \<lparr>stdout = [],
               stderr = [Error (''Undefined constant '' @ [apostrophe] @ ''missing'' @ [apostrophe])],
               exit_code = 1\<rparr>"
    by code_simp
  show "main ''x = .(missing).;'' = Some \<lparr>stdout = [], stderr = [Syntax_error], exit_code = 1\<rparr>"
    by code_simp
qed

text \<open>
  C2 does not hold at the top level: \<^verbatim>\<open>make_dict\<close> looks each key up before it stores it and
  reports a repeat, \<^verbatim>\<open>start\<close> stores without looking. A key that occurs twice at the top
  level is therefore not reported: the run succeeds and prints the last value. The same
  two entries inside a table are reported.
\<close>

theorem top_level_duplicate_key_not_reported:
  "main ''a = 0b1 a = 0b10'' = Some \<lparr>stdout = ''a = 2'' @ [newline], stderr = [], exit_code = 0\<rparr>
   \<and> transform [Dict_item ''a'' (Number ''0b1''), Dict_item ''a'' (Number ''0b10'')] ConfigTransformer
     = Inr ([(''a'', PyInt 2)], \<lparr>constants = [], errors = []\<rparr>)
   \<and> main ''t = table([a = 0b1 a = 0b10])''
     = Some \<lparr>stdout = [],
              stderr = [Error (''Duplicate key '' @ [apostrophe] @ ''a'' @ [apostrophe] @ '' in table'')],
              exit_code = 1\<rparr>"
proof (intro conjI)
  show "main ''a = 0b1 a = 0b10''
      = Some \<lparr>stdout = ''a = 2'' @ [newline], stderr = [], exit_code = 0\<rparr>"
    by code_simp
  show "transform [Dict_item ''a'' (Number ''0b1''), Dict_item ''a'' (Number ''0b10'')] ConfigTransformer
      = Inr ([(''a'', PyInt 2)], \<lparr>constants = [], errors = []\<rparr>)"
    by code_simp
  show "main ''t = table([a = 0b1 a = 0b10])''
      = Some \<lparr>stdout = [],
               stderr = [Error (''Duplicate key '' @ [apostrophe] @ ''a'' @ [apostrophe] @ '' in table'')],
               exit_code = 1\<rparr>"
    by code_simp
qed

text \<open>
  C1. A reference sees exactly the constants declared in front of it. Take the
  specification's resolver: the environment \<open>declared before\<close> of a statement holds the
  constants of the statements \<open>before\<close> it and no others, a reference resolves to the value
  its name has there, the most recent declaration's, or to \<^verbatim>\<open>None\<close> with one
  \<^verbatim>\<open>Undefined constant\<close> message when the name is not declared there (declared only
  later, or never). For every program the parser can return, the run of the transformer
  returns, its table is the table of the entries so resolved, statement by statement for
  every split \<open>before @ s # after\<close> of the program, its \<^verbatim>\<open>Undefined constant\<close> messages are
  exactly those of the references without a declaration in front of them, in source
  order, and its final table of constants is \<open>declared program\<close>. Such a program, when it has
  a reference without an earlier declaration, is rejected with exit code 1; so is
  \<^verbatim>\<open>x: .(y).; y: 0b1;\<close>, with \<^verbatim>\<open>y\<close> reported undefined.
\<close>

theorem constant_visible_only_after_declaration:
  "(valid_program program \<longrightarrow>
      (\<exists>t. transform program ConfigTransformer = Inr (dict_of_items (items_from [] program), t)
         \<and> filter is_undefined (errors t) = map undefined_msg (undeclared_from [] program)
         \<and> (\<forall>n. (undefined_msg n \<in> set (errors t))
               = (\<exists>p r q. program = p @ r # q \<and> n \<in> set (references (stmt_value r))
                    \<and> n \<notin> set (decl_names p)))
         \<and> (\<forall>n. py_getitem n (constants t) = declared program n)))
   \<and> (parse input = Some (Inr program) \<longrightarrow> valid_program program)
   \<and> (parse input = Some (Inr program) \<and> undeclared_from [] program \<noteq> [] \<longrightarrow>
        (\<exists>t :: transformer. main input = Some \<lparr>stdout = [], stderr = map Error (errors t), exit_code = 1\<rparr>
           \<and> filter is_undefined (errors t) = map undefined_msg (undeclared_from [] program)))
   \<and> (program = before @ s # after \<longrightarrow>
        items_from [] program
          = items_from [] before @ stmt_items (declared before) s @ items_from (before @ [s]) after
        \<and> undeclared_from [] program
          = undeclared_from [] before
            @ filter (\<lambda>n. n \<notin> set (decl_names before)) (references (stmt_value s))
            @ undeclared_from (before @ [s]) after)
   \<and> stmt_items env (Dict_item key child) = [(key, resolve env child)]
   \<and> resolve env (Use_const name) = (case env name of Some v \<Rightarrow> v | None \<Rightarrow> PyNone)
   \<and> (declared before name = None) = (name \<notin> set (decl_names before))
   \<and> (name \<notin> set (decl_names p2) \<longrightarrow>
        declared (p1 @ Declare_const name e # p2) name = Some (resolve (declared p1) e))
   \<and> main ''x: .(y).; y: 0b1;''
       = Some \<lparr>stdout = [],
                stderr = [Error (''Undefined constant '' @ [apostrophe] @ ''y'' @ [apostrophe])],
                exit_code = 1\<rparr>"
proof (intro conjI impI)
  have run: "\<exists>t. transform program ConfigTransformer = Inr (dict_of_items (items_from [] program), t)
      \<and> filter is_undefined (errors t) = map undefined_msg (undeclared_from [] program)
      \<and> (\<forall>n. (undefined_msg n \<in> set (errors t))
            = (\<exists>p r q. program = p @ r # q \<and> n \<in> set (references (stmt_value r))
                 \<and> n \<notin> set (decl_names p)))
      \<and> (\<forall>n. py_getitem n (constants t) = declared program n)"
    if v: "valid_program program"
  proof -
    from valid_statements_transform [OF v] obtain items t
      where r: "transform_statements program ConfigTransformer = Inr (items, t)"
      by blast
    note a = transform_program_resolves [OF r]
    from r have "transform program ConfigTransformer = Inr (start items, t)"
      by (simp add: transform_def)
    then have 1: "transform program ConfigTransformer = Inr (dict_of_items (items_from [] program), t)"
      by (simp only: start_tuples a(1))
    have 2: "(undefined_msg n \<in> set (errors t))
        = (\<exists>p r q. program = p @ r # q \<and> n \<in> set (references (stmt_value r))
             \<and> n \<notin> set (decl_names p))" for n
      unfolding undefined_reported [OF a(2)] undeclared_from_set by simp
    from 1 a(2) 2 a(3) show ?thesis
      by blast
  qed
  then show "\<exists>t. transform program ConfigTransformer = Inr (dict_of_items (items_from [] program), t)
      \<and> filter is_undefined (errors t) = map undefined_msg (undeclared_from [] program)
      \<and> (\<forall>n. (undefined_msg n \<in> set (errors t))
            = (\<exists>p r q. program = p @ r # q \<and> n \<in> set (references (stmt_value r))
                 \<and> n \<notin> set (decl_names p)))
      \<and> (\<forall>n. py_getitem n (constants t) = declared program n)"
    if "valid_program program"
    using that .
  show "valid_program program" if "parse input = Some (Inr program)"
    using that by (rule parse_valid_program)
  show "\<exists>t :: transformer. main input = Some \<lparr>stdout = [], stderr = map Error (errors t), exit_code = 1\<rparr>
      \<and> filter is_undefined (errors t) = map undefined_msg (undeclared_from [] program)"
    if p: "parse input = Some (Inr program) \<and> undeclared_from [] program \<noteq> []"
  proof -
    from p [THEN conjunct1] have "valid_program program"
      by (rule parse_valid_program)
    from run [OF this] obtain t
      where a: "transform program ConfigTransformer = Inr (dict_of_items (items_from [] program), t)"
        and b: "filter is_undefined (errors t) = map undefined_msg (undeclared_from [] program)"
      by blast
    from b p have "filter is_undefined (errors t) \<noteq> []"
      by simp
    then have "errors t \<noteq> []"
      by auto
    with p a have "main input = Some \<lparr>stdout = [], stderr = map Error (errors t), exit_code = 1\<rparr>"
      by (simp add: main_def)
    with b have "main input = Some \<lparr>stdout = [], stderr = map Error (errors t), exit_code = 1\<rparr>
        \<and> filter is_undefined (errors t) = map undefined_msg (undeclared_from [] program)"
      by simp
    then show ?thesis ..
  qed
  show "items_from [] program
      = items_from [] before @ stmt_items (declared before) s @ items_from (before @ [s]) after"
    if "program = before @ s # after"
    unfolding that by (simp add: items_from_append)
  show "undeclared_from [] program
      = undeclared_from [] before
        @ filter (\<lambda>n. n \<notin> set (decl_names before)) (references (stmt_value s))
        @ undeclared_from (before @ [s]) after"
    if "program = before @ s # after"
    unfolding that by (simp add: undeclared_from_append)
  show "stmt_items env (Dict_item key child) = [(key, resolve env child)]"
    by simp
  show "resolve env (Use_const name) = (case env name of Some v \<Rightarrow> v | None \<Rightarrow> PyNone)"
    by simp
  show "(declared before name = None) = (name \<notin> set (decl_names before))"
    by (rule declared_None)
  show "declared (p1 @ Declare_const name e # p2) name = Some (resolve (declared p1) e)"
    if "name \<notin> set (decl_names p2)"
    using that by (rule declared_latest)
  show "main ''x: .(y).; y: 0b1;''
      = Some \<lparr>stdout = [],
               stderr = [Error (''Undefined constant '' @ [apostrophe] @ ''y'' @ [apostrophe])],
               exit_code = 1\<rparr>"
    by code_simp
qed


theorem constant_visible_only_after_declaration_witness:
  "(\<exists>t. transform [Declare_const ''a'' (Number ''0b1''),
                    Dict_item ''x'' (Make_dict [(''k'', Use_const ''a''), (''m'', Use_const ''b'')]),
                    Declare_const ''b'' (Number ''0b10'')] ConfigTransformer
          = Inr ([(''x'', PyDict [(''k'', PyInt 1), (''m'', PyNone)])], t)
        \<and> filter is_undefined (errors t) = [undefined_msg ''b'']
        \<and> undefined_msg ''b'' \<in> set (errors t)
        \<and> py_getitem ''b'' (constants t) = Some (PyInt 2))
   \<and> (\<exists>t :: transformer.
         main ''a: 0b1; x = table([k = .(a)., m = .(b).]) b: 0b10;''
           = Some \<lparr>stdout = [], stderr = map Error (errors t), exit_code = 1\<rparr>
         \<and> filter is_undefined (errors t) = [undefined_msg ''b''])
   \<and> declared [Declare_const ''a'' (Number ''0b1'')] ''a'' = Some (PyInt 1)
   \<and> declared [Declare_const ''a'' (Number ''0b1'')] ''b'' = None
   \<and> items_from [] [Declare_const ''a'' (Number ''0b1''),
                     Dict_item ''x'' (Make_dict [(''k'', Use_const ''a''), (''m'', Use_const ''b'')]),
                     Declare_const ''b'' (Number ''0b10'')]
     = items_from [] [Declare_const ''a'' (Number ''0b1'')]
       @ stmt_items (declared [Declare_const ''a'' (Number ''0b1'')])
           (Dict_item ''x'' (Make_dict [(''k'', Use_const ''a''), (''m'', Use_const ''b'')]))
       @ items_from
           ([Declare_const ''a'' (Number ''0b1'')]
            @ [Dict_item ''x'' (Make_dict [(''k'', Use_const ''a''), (''m'', Use_const ''b'')])])
           [Declare_const ''b'' (Number ''0b10'')]"
proof -
  let ?a = "Declare_const ''a'' (Number ''0b1'')"
  let ?x = "Dict_item ''x'' (Make_dict [(''k'', Use_const ''a''), (''m'', Use_const ''b'')])"
  let ?b = "Declare_const ''b'' (Number ''0b10'')"
  let ?input = "''a: 0b1; x = table([k = .(a)., m = .(b).]) b: 0b10;''"
  note inst = constant_visible_only_after_declaration
    [of "[?a, ?x, ?b]" ?input "[?a]" ?x "[?b]" Map.empty "''x''" "Number ''0b1''" "''a''"
        "[]" "[]" "Number ''0b1''"]
  have parsed: "parse ?input = Some (Inr [?a, ?x, ?b])"
    by code_simp
  have items: "dict_of_items (items_from [] [?a, ?x, ?b])
      = [(''x'', PyDict [(''k'', PyInt 1), (''m'', PyNone)])]"
    by code_simp
  have undeclared: "undeclared_from [] [?a, ?x, ?b] = [''b'']"
    by code_simp
  have final: "declared [?a, ?x, ?b] ''b'' = Some (PyInt 2)"
    by code_simp
  have first: "resolve (declared []) (Number ''0b1'') = PyInt 1"
    by code_simp
  from inst parsed have valid: "valid_program [?a, ?x, ?b]"
    by blast
  with inst obtain t :: transformer
    where 1: "transform [?a, ?x, ?b] ConfigTransformer = Inr (dict_of_items (items_from [] [?a, ?x, ?b]), t)"
      and 2: "filter is_undefined (errors t) = map undefined_msg (undeclared_from [] [?a, ?x, ?b])"
      and 3: "\<forall>n. (undefined_msg n \<in> set (errors t))
            = (\<exists>p r q. [?a, ?x, ?b] = p @ r # q \<and> n \<in> set (references (stmt_value r))
                 \<and> n \<notin> set (decl_names p))"
      and 4: "\<forall>n. py_getitem n (constants t) = declared [?a, ?x, ?b] n"
    by blast
  have "[?a, ?x, ?b] = [?a] @ ?x # [?b] \<and> ''b'' \<in> set (references (stmt_value ?x))
      \<and> ''b'' \<notin> set (decl_names [?a])"
    by simp
  then have "\<exists>p r q. [?a, ?x, ?b] = p @ r # q \<and> ''b'' \<in> set (references (stmt_value r))
      \<and> ''b'' \<notin> set (decl_names p)"
    by blast
  with 3 have 5: "undefined_msg ''b'' \<in> set (errors t)"
    by simp
  from 1 2 5 4 have A: "transform [?a, ?x, ?b] ConfigTransformer
        = Inr ([(''x'', PyDict [(''k'', PyInt 1), (''m'', PyNone)])], t)
      \<and> filter is_undefined (errors t) = [undefined_msg ''b'']
      \<and> undefined_msg ''b'' \<in> set (errors t)
      \<and> py_getitem ''b'' (constants t) = Some (PyInt 2)"
    by (simp only: items undeclared final list.map)
  from inst parsed undeclared obtain u :: transformer
    where "main ?input = Some \<lparr>stdout = [], stderr = map Error (errors u), exit_code = 1\<rparr>
      \<and> filter is_undefined (errors u) = map undefined_msg (undeclared_from [] [?a, ?x, ?b])"
    by auto
  then have B: "main ?input = Some \<lparr>stdout = [], stderr = map Error (errors u), exit_code = 1\<rparr>
      \<and> filter is_undefined (errors u) = [undefined_msg ''b'']"
    by (simp only: undeclared list.map) 
  have "''a'' \<notin> set (decl_names [])"
    by simp
  with inst have "declared ([] @ Declare_const ''a'' (Number ''0b1'') # []) ''a''
      = Some (resolve (declared []) (Number ''0b1''))"
    by blast
  then have C: "declared [?a] ''a'' = Some (PyInt 1)"
    by (simp only: first append_Nil)
  have "''b'' \<notin> set (decl_names [?a])"
    by simp
  with constant_visible_only_after_declaration [of _ _ "[?a]" _ _ _ _ _ "''b''"]
  have D: "declared [?a] ''b'' = None"
    by blast
  have "[?a, ?x, ?b] = [?a] @ ?x # [?b]"
    by simp
  with inst have E: "items_from [] [?a, ?x, ?b]
      = items_from [] [?a] @ stmt_items (declared [?a]) ?x @ items_from ([?a] @ [?x]) [?b]"
    by blast
  from A B C D E show ?thesis
    by blast
qed

end
